theory Spec2Isabelle
  imports Complex_Main "HOL-Library.AList" "HOL-Library.Sublist" "HOL-Library.Multiset" "HOL-Library.List_Lexorder"
    "HOL-Library.Product_Lexorder"
begin

chapter \<open>The program\<close>

section \<open>Strings and the string built-ins the code calls\<close>

text \<open>
  A JavaScript string is a sequence of code units. It is modelled as a list of characters,
  each character standing for one code unit in the range 0..255 (Latin-1), so that
  \<open>length\<close> is the \<open>.length\<close> of the source. The regular-expression classes
  are the ECMAScript ones restricted to that range: \<open>[a-z0-9]\<close>, the white space
  class (tab, line feed, vertical tab, form feed, carriage return, space, no-break space)
  and the word class \<open>[A-Za-z0-9_]\<close>. \<open>toLowerCase\<close> maps A-Z and the
  Latin-1 capitals to their small letters.
\<close>

definition code :: "char \<Rightarrow> nat" where
  "code c = of_char c"

definition isLowerAlnum :: "char \<Rightarrow> bool" where
  "isLowerAlnum c \<longleftrightarrow> (97 \<le> code c \<and> code c \<le> 122) \<or> (48 \<le> code c \<and> code c \<le> 57)"

definition isSpace :: "char \<Rightarrow> bool" where
  "isSpace c \<longleftrightarrow> code c \<in> {9, 10, 11, 12, 13, 32, 160}"

definition isWordChar :: "char \<Rightarrow> bool" where
  "isWordChar c \<longleftrightarrow>
     (97 \<le> code c \<and> code c \<le> 122) \<or> (65 \<le> code c \<and> code c \<le> 90) \<or>
     (48 \<le> code c \<and> code c \<le> 57) \<or> code c = 95"

definition lowerChar :: "char \<Rightarrow> char" where
  "lowerChar c =
     (if (65 \<le> code c \<and> code c \<le> 90) \<or> (192 \<le> code c \<and> code c \<le> 222 \<and> code c \<noteq> 215)
      then char_of (code c + 32) else c)"

definition toLowerCase :: "string \<Rightarrow> string" where
  "toLowerCase s = map lowerChar s"

text \<open>\<open>s.trim()\<close>: white space is removed from both ends.\<close>

definition trim :: "string \<Rightarrow> string" where
  "trim s = rev (dropWhile isSpace (rev (dropWhile isSpace s)))"

text \<open>
  \<open>s.split(/\s+/)\<close>: the pieces between maximal runs of white space. A string that
  starts (ends) with white space has an empty first (last) piece, and the empty string
  has the single piece \<open>""\<close>.
\<close>

definition consFirst :: "char \<Rightarrow> string list \<Rightarrow> string list" where
  "consFirst c pss = (case pss of [] \<Rightarrow> [[c]] | p # ps \<Rightarrow> (c # p) # ps)"

fun splitWs :: "string \<Rightarrow> string list" where
  "splitWs [] = [[]]"
| "splitWs [c] = (if isSpace c then [[], []] else [[c]])"
| "splitWs (c # d # cs) =
     (if isSpace c then (if isSpace d then splitWs (d # cs) else [] # splitWs (d # cs))
      else consFirst c (splitWs (d # cs)))"

text \<open>\<open>s.replace(/[^a-z0-9]+/g, " ")\<close>: every maximal run of characters outside
  \<open>[a-z0-9]\<close> becomes one space.\<close>

fun replaceNonAlnumRuns :: "string \<Rightarrow> string" where
  "replaceNonAlnumRuns [] = []"
| "replaceNonAlnumRuns [c] = (if isLowerAlnum c then [c] else '' '')"
| "replaceNonAlnumRuns (c # d # cs) =
     (if isLowerAlnum c then c # replaceNonAlnumRuns (d # cs)
      else if isLowerAlnum d then CHR '' '' # replaceNonAlnumRuns (d # cs)
      else replaceNonAlnumRuns (d # cs))"

text \<open>\<open>s.replace(/[^a-z0-9\s]/g, " ")\<close>: every single character that is neither in
  \<open>[a-z0-9]\<close> nor white space becomes a space.\<close>

definition replaceNonAlnumOrSpace :: "string \<Rightarrow> string" where
  "replaceNonAlnumOrSpace s = map (\<lambda>c. if isLowerAlnum c \<or> isSpace c then c else CHR '' '') s"

text \<open>
  A \<open>Set\<close> is modelled as the list of its elements in insertion order, without
  repetition: \<open>new Set(xs)\<close> keeps the first occurrence of every element,
  \<open>s.size\<close> is the length and \<open>s.has(x)\<close> is membership.
\<close>

definition newSet :: "'a list \<Rightarrow> 'a list" where
  "newSet xs = rev (remdups (rev xs))"

definition setAdd :: "'a \<Rightarrow> 'a list \<Rightarrow> 'a list" where
  "setAdd x s = (if x \<in> set s then s else s @ [x])"

section \<open>utils/genreMatch.ts\<close>

record GenreLite =
  gid :: int
  gname :: string

definition tokenizeWords :: "string \<Rightarrow> string list" where
  "tokenizeWords v =
     filter (\<lambda>t. 3 \<le> length t) (splitWs (trim (replaceNonAlnumRuns (toLowerCase v))))"

text \<open>
  \<open>genreName.split(/[/,&]|\band\b/i)\<close>. The scan keeps whether the previous code unit
  is a word character (for the word boundary in front of \<open>and\<close>) and the piece read
  so far. At every position the separator is one of the three punctuation characters, or
  the letters a, n, d in either case between two word boundaries.
\<close>

definition isPartSeparator :: "char \<Rightarrow> bool" where
  "isPartSeparator c \<longleftrightarrow> c = CHR ''/'' \<or> c = CHR '','' \<or> c = CHR ''&''"

definition matchesAnd :: "string \<Rightarrow> bool" where
  "matchesAnd s \<longleftrightarrow>
     map lowerChar (take 3 s) = ''and'' \<and>
     (case drop 3 s of [] \<Rightarrow> True | c # _ \<Rightarrow> \<not> isWordChar c)"

fun splitSep :: "bool \<Rightarrow> string \<Rightarrow> string \<Rightarrow> string list" where
  "splitSep prevWord cur [] = [cur]"
| "splitSep prevWord cur (c # cs) =
     (if isPartSeparator c then cur # splitSep False [] cs
      else if \<not> prevWord \<and> matchesAnd (c # cs) then cur # splitSep True [] (drop 2 cs)
      else splitSep (isWordChar c) (cur @ [c]) cs)"

definition splitGenreParts :: "string \<Rightarrow> string list" where
  "splitGenreParts genreName =
     filter (\<lambda>p. p \<noteq> []) (map trim (splitSep False [] genreName))"

definition isTokenSubset :: "string list \<Rightarrow> string list \<Rightarrow> bool" where
  "isTokenSubset a b = list_all (\<lambda>t. t \<in> set b) a"

text \<open>The token sets the matcher builds: of a category, of a whole genre name, and of the
  parts of a genre name (empty sets filtered out).\<close>

definition tokenSet :: "string \<Rightarrow> string list" where
  "tokenSet v = newSet (tokenizeWords v)"

definition categoryTokenSets :: "string list \<Rightarrow> string list list" where
  "categoryTokenSets categories = filter (\<lambda>s. 0 < length s) (map tokenSet categories)"

definition partTokenSets :: "string \<Rightarrow> string list list" where
  "partTokenSets genreName = filter (\<lambda>s. 0 < length s) (map tokenSet (splitGenreParts genreName))"

text \<open>The loop over the category token sets, left at the first category one of whose
  part token sets is contained in.\<close>

definition matchesAnyCategory :: "string list list \<Rightarrow> string list list \<Rightarrow> bool" where
  "matchesAnyCategory parts cats =
     list_ex (\<lambda>catTokens. list_ex (\<lambda>genrePartTokens. isTokenSubset genrePartTokens catTokens) parts) cats"

text \<open>
  The two maps of the matcher, keyed by genre id. A \<open>Map\<close> is an association list in
  insertion order; \<open>set\<close> on a key that is present replaces the value in place.
\<close>

record matchState =
  matchedById :: "(int \<times> GenreLite) list"
  genreTokensById :: "(int \<times> string list) list"

definition matchStep :: "string list list \<Rightarrow> matchState \<Rightarrow> GenreLite \<Rightarrow> matchState" where
  "matchStep cats st g =
     (let fullTokens = tokenSet (gname g) in
      if length fullTokens = 0 then st
      else
        let st1 = st\<lparr>genreTokensById := AList.update (gid g) fullTokens (genreTokensById st)\<rparr> in
        if matchesAnyCategory (partTokenSets (gname g)) cats
        then st1\<lparr>matchedById := AList.update (gid g) g (matchedById st1)\<rparr>
        else st1)"

definition matchLoop :: "string list \<Rightarrow> GenreLite list \<Rightarrow> matchState" where
  "matchLoop categories genres =
     foldl (matchStep (categoryTokenSets categories))
       \<lparr>matchedById = [], genreTokensById = []\<rparr> genres"

text \<open>The pruning loops: \<open>a\<close> is deleted when some other matched id \<open>b\<close> has a
  strictly larger token set that contains the one of \<open>a\<close>.\<close>

definition prunedBy :: "(int \<times> string list) list \<Rightarrow> int list \<Rightarrow> int \<Rightarrow> bool" where
  "prunedBy tokensById matchedIds a =
     (case map_of tokensById a of
        None \<Rightarrow> False
      | Some aTokens \<Rightarrow>
          list_ex (\<lambda>b. a \<noteq> b \<and>
            (case map_of tokensById b of
               None \<Rightarrow> False
             | Some bTokens \<Rightarrow> \<not> length bTokens \<le> length aTokens \<and> isTokenSubset aTokens bTokens))
            matchedIds)"

definition pruneIds :: "(int \<times> string list) list \<Rightarrow> int list \<Rightarrow> int list" where
  "pruneIds tokensById matchedIds =
     foldl (\<lambda>prunedIds a. if prunedBy tokensById matchedIds a then removeAll a prunedIds else prunedIds)
       (newSet matchedIds) matchedIds"

text \<open>The raw match set: the values of \<open>matchedById\<close> after the first loop.\<close>

definition rawMatched :: "string list \<Rightarrow> GenreLite list \<Rightarrow> GenreLite list" where
  "rawMatched categories genres = map snd (matchedById (matchLoop categories genres))"

definition matchGenresFromCategories :: "string list \<Rightarrow> GenreLite list \<Rightarrow> GenreLite list" where
  "matchGenresFromCategories categories genres =
     (if length categories = 0 \<or> length genres = 0 then []
      else
        let st = matchLoop categories genres;
            matched = map snd (matchedById st);
            matchedIds = map gid matched;
            prunedIds = pruneIds (genreTokensById st) matchedIds
        in filter (\<lambda>g. gid g \<in> set prunedIds) matched)"

section \<open>routes/recommendations.ts\<close>

text \<open>Numbers that the code only compares, adds, multiplies and divides are rationals,
  and a decimal literal of such a computation denotes its exact value. The three weights
  are the binary64 numbers that their literals denote (\<open>double\<close> below).\<close>

record CandidateBook =
  title :: string
  authors :: string
  publishedDate :: "string option"
  isbn :: "string option"
  coverUrl :: string
  googleBooksId :: string
  description :: string
  averageRating :: rat
  categories :: "string list"
  sourceGenreIds :: "int list"
  sourceGenreNames :: "string list"

record Weights =
  genreW :: rat
  finishedW :: rat
  toReadW :: rat

record ScoredCandidate =
  candidate :: CandidateBook
  score :: rat
  genreIds :: "int list"
  genreScore :: rat
  genreOverlapRatio :: rat
  finishedScore :: rat
  toReadScore :: rat
  weightsUsed :: Weights

record ShelfBookLite =
  shelfGoogleBooksId :: string
  shelfTitle :: string
  shelfDescription :: string

text \<open>\<open>parts.join(sep)\<close>.\<close>

fun joinWith :: "string \<Rightarrow> string list \<Rightarrow> string" where
  "joinWith sep [] = []"
| "joinWith sep [x] = x"
| "joinWith sep (x # y # ys) = x @ sep @ joinWith sep (y # ys)"

definition truncateDescription :: "string \<Rightarrow> nat \<Rightarrow> string" where
  "truncateDescription text wordLimit =
     (let words = splitWs text in
      if length words \<le> wordLimit then text
      else joinWith '' '' (take wordLimit words) @ '' ...'')"

definition tokenize :: "string \<Rightarrow> string list" where
  "tokenize text =
     newSet (filter (\<lambda>t. 3 \<le> length t)
       (map trim (splitWs (replaceNonAlnumOrSpace (toLowerCase text)))))"

definition jaccardSimilarity :: "string list \<Rightarrow> string list \<Rightarrow> rat" where
  "jaccardSimilarity a b =
     (if length a = 0 \<or> length b = 0 then 0
      else
        let intersection = int (length (filter (\<lambda>x. x \<in> set b) a));
            union = int (length a) + int (length b) - intersection
        in if union = 0 then 0 else of_int intersection / of_int union)"

text \<open>\<open>bookToText\<close> of an object with the four optional fields; a missing field and an
  empty one are both dropped by \<open>filter(Boolean)\<close>.\<close>

definition bookToText :: "string \<Rightarrow> string \<Rightarrow> string \<Rightarrow> string list \<Rightarrow> string" where
  "bookToText t a d cs = joinWith '' '' (filter (\<lambda>p. p \<noteq> []) [t, a, d, joinWith '' '' cs])"

text \<open>\<open>value.replace(/\s+/g, " ")\<close>.\<close>

fun replaceSpaceRuns :: "string \<Rightarrow> string" where
  "replaceSpaceRuns [] = []"
| "replaceSpaceRuns [c] = (if isSpace c then '' '' else [c])"
| "replaceSpaceRuns (c # d # cs) =
     (if \<not> isSpace c then c # replaceSpaceRuns (d # cs)
      else if \<not> isSpace d then CHR '' '' # replaceSpaceRuns (d # cs)
      else replaceSpaceRuns (d # cs))"

definition normalizeKeyPart :: "string \<Rightarrow> string" where
  "normalizeKeyPart v = replaceSpaceRuns (trim (toLowerCase v))"

text \<open>\<open>authors.split(",")[0]\<close> is the text in front of the first comma.\<close>

definition normalizedCandidateKey :: "CandidateBook \<Rightarrow> string" where
  "normalizedCandidateKey book =
     (let t = normalizeKeyPart (title book);
          author = normalizeKeyPart (takeWhile (\<lambda>c. c \<noteq> CHR '','') (authors book))
      in if t \<noteq> [] \<and> author \<noteq> [] then t @ ''|'' @ author
         else if t \<noteq> [] then t @ ''|unknown-author''
         else ''id|'' @ googleBooksId book)"

record SimilarityDetail =
  simScore :: rat
  matchedIndex :: int

definition maxSimilarityToShelfDetailed :: "string list \<Rightarrow> string list list \<Rightarrow> SimilarityDetail" where
  "maxSimilarityToShelfDetailed candidateTokens shelfTokenSets =
     foldl (\<lambda>best i.
         let sim = jaccardSimilarity candidateTokens (shelfTokenSets ! i)
         in if sim > simScore best then \<lparr>simScore = sim, matchedIndex = int i\<rparr> else best)
       \<lparr>simScore = 0, matchedIndex = - 1\<rparr> [0..<length shelfTokenSets]"

definition countIntersection :: "int list \<Rightarrow> int list \<Rightarrow> nat" where
  "countIntersection a b = length (filter (\<lambda>x. x \<in> set b) a)"

text \<open>\<open>addSourceGenre\<close> changes its argument in place; the model returns the changed
  candidate. The id 0 and the empty name are falsy.\<close>

definition addSourceGenre :: "CandidateBook \<Rightarrow> int \<Rightarrow> string \<Rightarrow> CandidateBook" where
  "addSourceGenre c genreId genreName =
     (if genreId = 0 then c
      else
        let ids = setAdd genreId (newSet (sourceGenreIds c));
            names0 = newSet (sourceGenreNames c);
            names = (if genreName \<noteq> [] then setAdd genreName names0 else names0)
        in c\<lparr>sourceGenreIds := ids, sourceGenreNames := names\<rparr>)"

text \<open>\<open>new Map(entries)\<close>: a later entry with the same key replaces the value.\<close>

definition newMap :: "('k \<times> 'v) list \<Rightarrow> ('k \<times> 'v) list" where
  "newMap entries = foldl (\<lambda>m e. AList.update (fst e) (snd e) m) [] entries"

text \<open>The copy of the matcher inside the route. It collects the matches as pairs of id and
  full token set and returns the ids that survive the pruning.\<close>

definition deriveGenreIdsFromCategories :: "string list \<Rightarrow> GenreLite list \<Rightarrow> int list" where
  "deriveGenreIdsFromCategories cats allGenres =
     (if length cats = 0 then []
      else
        let matched = map (\<lambda>g. (gid g, tokenSet (gname g)))
              (filter (\<lambda>g. length (tokenSet (gname g)) \<noteq> 0 \<and>
                   matchesAnyCategory (partTokenSets (gname g)) (categoryTokenSets cats)) allGenres);
            matchedIds = map fst matched;
            tokensById = newMap matched
        in newSet (pruneIds tokensById matchedIds))"

subsection \<open>The upstream services\<close>

text \<open>
  Values that the code throws. A call of \<open>axios.get\<close> either resolves with the data of the
  reply or rejects with the HTTP status (429 when the service limits the rate; 0 stands for
  no reply at all).
\<close>

datatype error = HttpError nat | TypeError

text \<open>The reply of the cover service to one search: the request is rejected, or the reply
  has no data object, or it has one whose \<open>docs\<close> may be missing. A document carries the
  number of its cover, 0 when it has none.\<close>

record Doc =
  cover_i :: nat

datatype coverResponse = CoverRejected nat | CoverNoData | CoverDocs "Doc list option"

text \<open>
  A volume of the metadata service. A field that the reply leaves out is the empty string,
  the empty list or 0: the code reads every field through \<open>|| ""\<close>, \<open>|| []\<close>, \<open>|| 0\<close>,
  \<open>|| null\<close> or a truth test, which treat both alike. \<open>isbn13\<close> is the identifier of type
  ISBN_13. Only \<open>volumeInfo\<close> as a whole is optional. Every item comes with the reply that
  the cover service gives to the lookup made for it.
\<close>

record VolumeInfo =
  viTitle :: string
  viAuthors :: "string list"
  viPublishedDate :: string
  viDescription :: string
  viAverageRating :: rat
  viCategories :: "string list"
  viIsbn13 :: string

record Item =
  itemId :: string
  volumeInfo :: "VolumeInfo option"

datatype googleResponse = GoogleRejected nat | GoogleItems "(Item \<times> coverResponse) list"

text \<open>The decimal digits of a number, as a template literal prints it.\<close>

fun decimal :: "nat \<Rightarrow> string" where
  "decimal n = (if n < 10 then [char_of (48 + n)] else decimal (n div 10) @ [char_of (48 + n mod 10)])"

text \<open>
  \<open>fetchOpenLibraryCover\<close>: the body of the \<open>try\<close> block, and the function with its
  \<open>catch\<close>, which turns every thrown value into \<open>null\<close>.
\<close>

definition coverLookupBody :: "coverResponse \<Rightarrow> error + string option" where
  "coverLookupBody res =
     (case res of
        CoverRejected st \<Rightarrow> Inl (HttpError st)
      | CoverNoData \<Rightarrow> Inl TypeError
      | CoverDocs None \<Rightarrow> Inr None
      | CoverDocs (Some docs) \<Rightarrow>
          if length docs = 0 then Inr None
          else (case find (\<lambda>doc. cover_i doc \<noteq> 0) docs of
                  Some bookWithCover \<Rightarrow>
                    Inr (Some (''https://covers.openlibrary.org/b/id/'' @
                               decimal (cover_i bookWithCover) @ ''-L.jpg''))
                | None \<Rightarrow> Inr None))"

definition fetchOpenLibraryCover :: "coverResponse \<Rightarrow> error + string option" where
  "fetchOpenLibraryCover res =
     (case coverLookupBody res of Inl err \<Rightarrow> Inr None | Inr url \<Rightarrow> Inr url)"

text \<open>\<open>Promise.all\<close> followed by \<open>filter(Boolean)\<close>: the first rejection rejects the whole;
  otherwise the results that are not \<open>null\<close> remain, in order.\<close>

fun collect :: "(error + 'a option) list \<Rightarrow> error + 'a list" where
  "collect [] = Inr []"
| "collect (r # rs) =
     (case r of
        Inl err \<Rightarrow> Inl err
      | Inr v \<Rightarrow>
          (case collect rs of
             Inl err \<Rightarrow> Inl err
           | Inr vs \<Rightarrow> Inr (case v of None \<Rightarrow> vs | Some x \<Rightarrow> x # vs)))"

definition forbiddenTitle :: "string \<Rightarrow> bool" where
  "forbiddenTitle t \<longleftrightarrow>
     list_ex (\<lambda>word. sublist word (toLowerCase t)) [''annotated'', ''illustrated'']"

definition authorsText :: "string list \<Rightarrow> string" where
  "authorsText as = (let j = joinWith '', '' as in if j = [] then ''Unknown'' else j)"

text \<open>
  The callback of \<open>fetchBooksFromGoogle\<close> in the recommendations route. Reading the title
  of an item without \<open>volumeInfo\<close> throws. The published date is kept as the text handed to
  \<open>parseInt\<close>, which is not interpreted.
\<close>

definition toCandidate :: "Item \<Rightarrow> coverResponse \<Rightarrow> error + CandidateBook option" where
  "toCandidate item cover =
     (case volumeInfo item of
        None \<Rightarrow> Inl TypeError
      | Some vi \<Rightarrow>
          (case fetchOpenLibraryCover cover of
             Inl err \<Rightarrow> Inl err
           | Inr None \<Rightarrow> Inr None
           | Inr (Some url) \<Rightarrow>
               if viDescription vi = [] then Inr None
               else if forbiddenTitle (viTitle vi) then Inr None
               else Inr (Some
                 \<lparr>title = viTitle vi,
                  authors = authorsText (viAuthors vi),
                  publishedDate =
                    (if viPublishedDate vi = [] then None else Some (take 4 (viPublishedDate vi))),
                  isbn = (if viIsbn13 vi = [] then None else Some (viIsbn13 vi)),
                  coverUrl = url,
                  googleBooksId = itemId item,
                  description = truncateDescription (viDescription vi) 150,
                  averageRating = viAverageRating vi,
                  categories = viCategories vi,
                  sourceGenreIds = [],
                  sourceGenreNames = []\<rparr>)))"

definition fetchBooksFromGoogle :: "googleResponse \<Rightarrow> error + CandidateBook list" where
  "fetchBooksFromGoogle res =
     (case res of
        GoogleRejected st \<Rightarrow> Inl (HttpError st)
      | GoogleItems items \<Rightarrow> collect (map (\<lambda>ic. toCandidate (fst ic) (snd ic)) items))"

subsection \<open>Aggregating, scoring and ranking\<close>

text \<open>
  The collision branch of the aggregator. The record already in the map first receives the
  source genre of the current query (it is changed in place); then the incoming candidate
  replaces it when its rating is higher, or equal with a longer description, and in that
  case takes over the merged source genres.
\<close>

definition shouldReplace :: "CandidateBook \<Rightarrow> CandidateBook \<Rightarrow> bool" where
  "shouldReplace existingCandidate incoming \<longleftrightarrow>
     averageRating incoming > averageRating existingCandidate \<or>
     (averageRating incoming = averageRating existingCandidate \<and>
      length (description incoming) > length (description existingCandidate))"

definition mergeOnCollision :: "GenreLite \<Rightarrow> CandidateBook \<Rightarrow> CandidateBook \<Rightarrow> CandidateBook" where
  "mergeOnCollision g existingCandidate incoming =
     (let existing1 = addSourceGenre existingCandidate (gid g) (gname g) in
      if shouldReplace existing1 incoming
      then incoming
        \<lparr>sourceGenreIds :=
           foldl (\<lambda>s i. setAdd i s) (newSet (sourceGenreIds existing1)) (sourceGenreIds incoming),
         sourceGenreNames :=
           foldl (\<lambda>s n. setAdd n s) (newSet (sourceGenreNames existing1)) (sourceGenreNames incoming)\<rparr>
      else existing1)"

text \<open>The body of the loop over the raw books of one genre query: books without an external
  id and excluded books are skipped, a new key is stored, a known key is merged.\<close>

definition addRawBook ::
  "string list \<Rightarrow> GenreLite \<Rightarrow> (string \<times> CandidateBook) list \<Rightarrow> CandidateBook \<Rightarrow>
   (string \<times> CandidateBook) list" where
  "addRawBook excludeGoogleIds g candidateMap book =
     (if googleBooksId book = [] then candidateMap
      else if googleBooksId book \<in> set excludeGoogleIds then candidateMap
      else
        let incoming = addSourceGenre (book\<lparr>sourceGenreIds := [], sourceGenreNames := []\<rparr>)
                         (gid g) (gname g);
            key = normalizedCandidateKey incoming
        in case map_of candidateMap key of
             None \<Rightarrow> AList.update key incoming candidateMap
           | Some existingCandidate \<Rightarrow>
               AList.update key (mergeOnCollision g existingCandidate incoming) candidateMap)"

text \<open>The two nested loops over the raw books fetched for each preferred genre, starting
  from the empty map.\<close>

definition aggregateRaw ::
  "string list \<Rightarrow> (GenreLite \<times> CandidateBook list) list \<Rightarrow> (string \<times> CandidateBook) list" where
  "aggregateRaw excludeGoogleIds fetched =
     foldl (\<lambda>m f. foldl (addRawBook excludeGoogleIds (fst f)) m (snd f)) [] fetched"

text \<open>
  The numbers of the platform are binary64 floating point numbers. For \<open>x\<close> with
  \<open>2 ^ e \<le> \<bar>x\<bar> < 2 ^ (e + 1)\<close> the binary64 numbers around \<open>x\<close> are the multiples of
  \<open>2 ^ (e - 52)\<close>, which \<open>ulpOf\<close> finds by halving or doubling \<open>\<bar>x\<bar>\<close> into the interval
  from 1 to 2; 1074 steps reach every exponent of the format. \<open>double x\<close> is the
  binary64 number nearest to \<open>x\<close>, the one with the even significand when two are
  equally near: the value that a decimal literal \<open>x\<close> denotes. \<open>dadd\<close> is \<open>+\<close> on two
  binary64 numbers, which rounds the exact sum in the same way. The exponent is not
  bounded here: no number below is too large or too small for a normal binary64 number.
\<close>

fun ulpOf :: "nat \<Rightarrow> rat \<Rightarrow> rat" where
  "ulpOf 0 x = 1 / 2 ^ 52"
| "ulpOf (Suc n) x =
     (if x < 1 then ulpOf n (x * 2) / 2
      else if 2 \<le> x then ulpOf n (x / 2) * 2
      else 1 / 2 ^ 52)"

definition roundHalfEven :: "rat \<Rightarrow> int" where
  "roundHalfEven m =
     (let f = \<lfloor>m\<rfloor>; r = m - of_int f
      in if r < 1 / 2 then f else if 1 / 2 < r then f + 1 else if even f then f else f + 1)"

definition double :: "rat \<Rightarrow> rat" where
  "double x =
     (if x = 0 then 0
      else let ulp = ulpOf 1074 \<bar>x\<bar> in of_int (roundHalfEven (x / ulp)) * ulp)"

definition dadd :: "rat \<Rightarrow> rat \<Rightarrow> rat" where
  "dadd a b = double (a + b)"

text \<open>The weights of the three sub-scores.\<close>

definition weights :: "ShelfBookLite list \<Rightarrow> Weights" where
  "weights finishedLite =
     (if length finishedLite > 0
      then \<lparr>genreW = double 0.35, finishedW = double 0.40, toReadW = double 0.25\<rparr>
      else \<lparr>genreW = double 0.70, finishedW = double 0.20, toReadW = double 0.10\<rparr>)"

text \<open>The map from external id to the set of genre ids, built from the rows of the store
  (external id and genre ids of a book).\<close>

definition existingGenreIdsByGoogleId :: "(string \<times> int list) list \<Rightarrow> (string \<times> int list) list" where
  "existingGenreIdsByGoogleId existing = newMap (map (\<lambda>b. (fst b, newSet (snd b))) existing)"

text \<open>
  The body of \<open>candidates.map\<close> in the route. \<open>existing\<close> is the map from external id
  to the set of genre ids of the store, \<open>preferred\<close> the set of preferred genre ids.
\<close>

definition scoreCandidate ::
  "(string \<times> int list) list \<Rightarrow> GenreLite list \<Rightarrow> int list \<Rightarrow> string list list \<Rightarrow>
   string list list \<Rightarrow> Weights \<Rightarrow> CandidateBook \<Rightarrow> ScoredCandidate" where
  "scoreCandidate existing allGenres preferred finishedTokenSets toReadTokenSets w c =
     (let dbGenreIds = (case map_of existing (googleBooksId c) of Some s \<Rightarrow> s | None \<Rightarrow> []);
          srcGenreIds = newSet (sourceGenreIds c);
          categoryGenreIds = deriveGenreIdsFromCategories (categories c) allGenres;
          inferredGenreIds = newSet (srcGenreIds @ categoryGenreIds);
          effectiveGenreIds = (if length dbGenreIds > 0 then dbGenreIds else inferredGenreIds);
          totalGenres = length effectiveGenreIds;
          matchedGenres = countIntersection effectiveGenreIds preferred;
          ratio = (if totalGenres > 0 then of_nat matchedGenres / of_nat totalGenres else 0);
          gScore = (if totalGenres > 0 then 0.6 + 0.4 * ratio else 0);
          candidateTokens = tokenize (bookToText (title c) (authors c) (description c) (categories c));
          finishedDetail = maxSimilarityToShelfDetailed candidateTokens finishedTokenSets;
          toReadDetail = maxSimilarityToShelfDetailed candidateTokens toReadTokenSets;
          fScore = simScore finishedDetail;
          tScore = simScore toReadDetail
      in \<lparr>candidate = c,
          score = genreW w * gScore + finishedW w * fScore + toReadW w * tScore,
          genreIds = effectiveGenreIds,
          genreScore = gScore,
          genreOverlapRatio = ratio,
          finishedScore = fScore,
          toReadScore = tScore,
          weightsUsed = w\<rparr>)"

text \<open>
  \<open>xs.sort(cmp)\<close> for a consistent comparator: a stable sort, here by insertion from the
  right. An element goes in front of the first element it does not compare greater than.
\<close>

fun insertBy :: "('a \<Rightarrow> 'a \<Rightarrow> 'b::{zero,linorder}) \<Rightarrow> 'a \<Rightarrow> 'a list \<Rightarrow> 'a list" where
  "insertBy cmp x [] = [x]"
| "insertBy cmp x (y # ys) = (if cmp x y \<le> 0 then x # y # ys else y # insertBy cmp x ys)"

definition jsSort :: "('a \<Rightarrow> 'a \<Rightarrow> 'b::{zero,linorder}) \<Rightarrow> 'a list \<Rightarrow> 'a list" where
  "jsSort cmp xs = foldr (insertBy cmp) xs []"

text \<open>\<open>scored.sort((a, b) => b.score - a.score)\<close> and \<open>scored.slice(0, 20)\<close>.\<close>

definition sortScored :: "ScoredCandidate list \<Rightarrow> ScoredCandidate list" where
  "sortScored scored = jsSort (\<lambda>a b. score b - score a) scored"

definition top20 :: "ScoredCandidate list \<Rightarrow> ScoredCandidate list" where
  "top20 scored = take 20 (sortScored scored)"

subsection \<open>The store and the route\<close>

text \<open>
  What the route reads from the store, as functions of the user id: the preferred genres
  (each row carries its genre id and the genre), the two shelves (title and description
  after \<open>?? ""\<close>), and the external ids of the books the user has marked (the empty
  string for a row without one); besides the genre table and the books with their genre
  associations (genre id and genre name). Reads of the store are total.
\<close>

record UserGenre =
  ugGenreId :: int
  ugGenre :: GenreLite

record BookRow =
  rowId :: int
  rowGoogleBooksId :: string
  rowGenres :: "(int \<times> string) list"

record Db =
  dbUserGenres :: "int \<Rightarrow> UserGenre list"
  dbToRead :: "int \<Rightarrow> ShelfBookLite list"
  dbFinished :: "int \<Rightarrow> ShelfBookLite list"
  dbSeen :: "int \<Rightarrow> string list"
  dbGenres :: "GenreLite list"
  dbBooks :: "BookRow list"

text \<open>
  What the route does besides answering: the queries sent to the metadata service, the
  candidates scored (one log line each) and the genre associations written for a book. A
  write that fails is caught and logged and changes nothing that the route returns, so
  the attempt is what is recorded.
\<close>

datatype effect = GoogleFetch string | Scored string | PersistGenres string "int list"

datatype 'b body = ErrorBody string | MessageBody string | BooksBody "'b list"

record 'b response =
  status :: nat
  body :: "'b body"

text \<open>The loop over the preferred genres. A fetch that throws ends the loop and the
  request.\<close>

fun aggregateLoop ::
  "(string \<Rightarrow> googleResponse) \<Rightarrow> string list \<Rightarrow> UserGenre list \<Rightarrow>
   (string \<times> CandidateBook) list \<Rightarrow> effect list \<Rightarrow>
   (error + (string \<times> CandidateBook) list) \<times> effect list" where
  "aggregateLoop google excludeGoogleIds [] candidateMap trace = (Inr candidateMap, trace)"
| "aggregateLoop google excludeGoogleIds (ug # ugs) candidateMap trace =
     (let q = ''subject:'' @ gname (ugGenre ug) in
      case fetchBooksFromGoogle (google q) of
        Inl err \<Rightarrow> (Inl err, trace @ [GoogleFetch q])
      | Inr rawBooks \<Rightarrow>
          aggregateLoop google excludeGoogleIds ugs
            (foldl (addRawBook excludeGoogleIds (ugGenre ug)) candidateMap rawBooks)
            (trace @ [GoogleFetch q]))"

text \<open>The genre ids of step 4 for one returned candidate, and the writes of the step.\<close>

definition genreIdsToPersist ::
  "(string \<times> int list) list \<Rightarrow> GenreLite list \<Rightarrow> ScoredCandidate \<Rightarrow> int list" where
  "genreIdsToPersist existing allGenres r =
     (let dbGenreIds = (case map_of existing (googleBooksId (candidate r)) of
                          Some s \<Rightarrow> s | None \<Rightarrow> []);
          srcGenreIds = newSet (sourceGenreIds (candidate r));
          categoryGenreIds = deriveGenreIdsFromCategories (categories (candidate r)) allGenres;
          inferredGenreIds = newSet (srcGenreIds @ categoryGenreIds)
      in foldl (\<lambda>s i. setAdd i s) (foldl (\<lambda>s i. setAdd i s) [] dbGenreIds) inferredGenreIds)"

definition persistEffects ::
  "(string \<times> int list) list \<Rightarrow> GenreLite list \<Rightarrow> ScoredCandidate list \<Rightarrow> effect list" where
  "persistEffects existing allGenres rs =
     concat (map (\<lambda>r. let ids = genreIdsToPersist existing allGenres r
                      in if length ids = 0 then []
                         else [PersistGenres (googleBooksId (candidate r)) ids]) rs)"

text \<open>The object sent for one returned candidate: the genre ids in rising order and the
  names the genre table has for them.\<close>

definition responseBook :: "(int \<times> string) list \<Rightarrow> ScoredCandidate \<Rightarrow> CandidateBook" where
  "responseBook genreNameById r =
     (let ids = jsSort (\<lambda>a b. a - b) (newSet (genreIds r));
          names = filter (\<lambda>n. n \<noteq> [])
                    (map (\<lambda>i. case map_of genreNameById i of Some n \<Rightarrow> n | None \<Rightarrow> []) ids)
      in (candidate r)\<lparr>sourceGenreIds := ids, sourceGenreNames := names\<rparr>)"

text \<open>The shelf context of the route: the shelf books that have an external id, the set of
  excluded external ids (both shelves and the marked books), and the token sets of a shelf.\<close>

definition shelfLite :: "ShelfBookLite list \<Rightarrow> ShelfBookLite list" where
  "shelfLite rows = filter (\<lambda>b. shelfGoogleBooksId b \<noteq> []) rows"

definition excludeGoogleIds :: "Db \<Rightarrow> int \<Rightarrow> string list" where
  "excludeGoogleIds db uid =
     foldl (\<lambda>s i. if i \<noteq> [] then setAdd i s else s)
       (newSet (map shelfGoogleBooksId (shelfLite (dbToRead db uid)) @
                map shelfGoogleBooksId (shelfLite (dbFinished db uid))))
       (dbSeen db uid)"

definition shelfTokenSets :: "ShelfBookLite list \<Rightarrow> string list list" where
  "shelfTokenSets lite =
     map (\<lambda>b. tokenize (bookToText (shelfTitle b) [] (shelfDescription b) [])) lite"

text \<open>
  \<open>GET /fetch/:userId\<close>, the ranked version. The first argument is the store, the
  second the metadata service as a function of the query, the third the result of
  \<open>parseInt\<close> on the path parameter (\<open>None\<close> for \<open>NaN\<close>).
\<close>

definition fetchRoute ::
  "Db \<Rightarrow> (string \<Rightarrow> googleResponse) \<Rightarrow> int option \<Rightarrow> CandidateBook response \<times> effect list" where
  "fetchRoute db google userId =
     (case userId of
        None \<Rightarrow> (\<lparr>status = 400, body = ErrorBody ''Invalid userId''\<rparr>, [])
      | Some uid \<Rightarrow>
          if uid = 0 then (\<lparr>status = 400, body = ErrorBody ''Invalid userId''\<rparr>, [])
          else
            let ugs = dbUserGenres db uid in
            if length ugs = 0
            then (\<lparr>status = 200, body = MessageBody ''User has no selected genres''\<rparr>, [])
            else
              let preferredGenreIds = newSet (map ugGenreId ugs);
                  toReadLite = shelfLite (dbToRead db uid);
                  finishedLite = shelfLite (dbFinished db uid);
                  toReadTokenSets = shelfTokenSets toReadLite;
                  finishedTokenSets = shelfTokenSets finishedLite;
                  w = weights finishedLite
              in case aggregateLoop google (excludeGoogleIds db uid) ugs [] [] of
                   (Inl err, trace) \<Rightarrow>
                     (\<lparr>status = 500, body = ErrorBody ''Failed to fetch recommendations''\<rparr>, trace)
                 | (Inr candidateMap, trace) \<Rightarrow>
                     let candidates = map snd candidateMap in
                     if length candidates = 0 then (\<lparr>status = 200, body = BooksBody []\<rparr>, trace)
                     else
                       let allGenres = dbGenres db;
                           existing = filter (\<lambda>row. rowGoogleBooksId row \<in> set (map googleBooksId candidates))
                                        (dbBooks db);
                           existingMap = existingGenreIdsByGoogleId
                                           (map (\<lambda>row. (rowGoogleBooksId row, map fst (rowGenres row))) existing);
                           scored = map (scoreCandidate existingMap allGenres preferredGenreIds
                                           finishedTokenSets toReadTokenSets w) candidates;
                           best = top20 scored;
                           genreNameById = newMap (map (\<lambda>g. (gid g, gname g)) allGenres)
                       in (\<lparr>status = 200, body = BooksBody (map (responseBook genreNameById) best)\<rparr>,
                           trace @ map (\<lambda>c. Scored (googleBooksId c)) candidates @
                           persistEffects existingMap allGenres best))"

subsection \<open>The round-robin version of the route\<close>

text \<open>The pool of one genre: the raw books in order, without a second book of the same
  external id and without the books that the user has marked.\<close>

definition poolFor :: "string list \<Rightarrow> CandidateBook list \<Rightarrow> CandidateBook list" where
  "poolFor seen rawBooks =
     foldl (\<lambda>filtered book.
          if list_ex (\<lambda>b. googleBooksId b = googleBooksId book) filtered then filtered
          else if googleBooksId book \<in> set seen then filtered
          else filtered @ [book])
       [] rawBooks"

text \<open>The loop that fills the pools, keyed by genre id.\<close>

fun poolLoop ::
  "(string \<Rightarrow> googleResponse) \<Rightarrow> string list \<Rightarrow> UserGenre list \<Rightarrow>
   (int \<times> CandidateBook list) list \<Rightarrow> effect list \<Rightarrow>
   (error + (int \<times> CandidateBook list) list) \<times> effect list" where
  "poolLoop google seen [] genreBookPool trace = (Inr genreBookPool, trace)"
| "poolLoop google seen (ug # ugs) genreBookPool trace =
     (let q = ''subject:'' @ gname (ugGenre ug) in
      case fetchBooksFromGoogle (google q) of
        Inl err \<Rightarrow> (Inl err, trace @ [GoogleFetch q])
      | Inr rawBooks \<Rightarrow>
          poolLoop google seen ugs
            (AList.update (gid (ugGenre ug)) (poolFor seen rawBooks) genreBookPool)
            (trace @ [GoogleFetch q]))"

text \<open>
  The rotation. Every round takes the head of the pool of the current genre, if there is
  one; a genre whose pool is then empty leaves the rotation, otherwise the index moves on.
  An index outside the rotation or a genre without pool would make the loop throw. The
  loop ends because every round shortens a pool or the rotation.
\<close>

definition poolSize :: "(int \<times> CandidateBook list) list \<Rightarrow> nat" where
  "poolSize pools = sum_list (map (\<lambda>e. length (snd e)) pools)"

lemma poolSize_update:
  "map_of pools k = Some pool \<Longrightarrow>
   poolSize (AList.update k p pools) + length pool = poolSize pools + length p"
  by (induction pools) (auto simp: poolSize_def)

function roundRobin ::
  "CandidateBook list \<Rightarrow> int list \<Rightarrow> nat \<Rightarrow> (int \<times> CandidateBook list) list \<Rightarrow>
   error + CandidateBook list" where
  "roundRobin finalRecommendations rotation genreIndex genreBookPool =
     (if length finalRecommendations < 20 \<and> length rotation > 0 then
        (if length rotation \<le> genreIndex then Inl TypeError
         else
           case map_of genreBookPool (rotation ! genreIndex) of
             None \<Rightarrow> Inl TypeError
           | Some pool \<Rightarrow>
               let final1 = (if length pool > 0 then finalRecommendations @ [hd pool]
                             else finalRecommendations);
                   pool1 = (if length pool > 0 then tl pool else pool);
                   pools1 = AList.update (rotation ! genreIndex) pool1 genreBookPool
               in if length pool1 = 0
                  then
                    let rotation1 = take genreIndex rotation @ drop (Suc genreIndex) rotation
                    in if length rotation1 = 0 then Inr final1
                       else roundRobin final1 rotation1 (genreIndex mod length rotation1) pools1
                  else roundRobin final1 rotation ((genreIndex + 1) mod length rotation) pools1)
      else Inr finalRecommendations)"
  by pat_completeness auto
termination
proof (relation "measure (\<lambda>(f, rotation, i, pools). poolSize pools + length rotation)")
  show "wf (measure (\<lambda>(f, rotation, i, pools). poolSize pools + length rotation))"
    by simp
next
  fix finalRecommendations :: "CandidateBook list" and rotation :: "int list" and genreIndex :: nat
    and genreBookPool :: "(int \<times> CandidateBook list) list" and pool final1 pool1 pools1 rotation1
  assume a: "length finalRecommendations < 20 \<and> 0 < length rotation"
    "\<not> length rotation \<le> genreIndex"
    "map_of genreBookPool (rotation ! genreIndex) = Some pool"
    "pool1 = (if 0 < length pool then tl pool else pool)"
    "pools1 = AList.update (rotation ! genreIndex) pool1 genreBookPool"
    "length pool1 = 0"
    "rotation1 = take genreIndex rotation @ drop (Suc genreIndex) rotation"
  have "poolSize pools1 + length pool = poolSize genreBookPool + length pool1"
    unfolding a(5) using a(3) by (rule poolSize_update)
  then have "poolSize pools1 \<le> poolSize genreBookPool"
    using a(6) by simp
  moreover have "length rotation1 < length rotation"
    using a(2) by (simp add: a(7))
  ultimately show "((final1, rotation1, genreIndex mod length rotation1, pools1),
      finalRecommendations, rotation, genreIndex, genreBookPool)
    \<in> measure (\<lambda>(f, rotation, i, pools). poolSize pools + length rotation)"
    by simp
next
  fix finalRecommendations :: "CandidateBook list" and rotation :: "int list" and genreIndex :: nat
    and genreBookPool :: "(int \<times> CandidateBook list) list" and pool final1 pool1 pools1
  assume a: "length finalRecommendations < 20 \<and> 0 < length rotation"
    "\<not> length rotation \<le> genreIndex"
    "map_of genreBookPool (rotation ! genreIndex) = Some pool"
    "pool1 = (if 0 < length pool then tl pool else pool)"
    "pools1 = AList.update (rotation ! genreIndex) pool1 genreBookPool"
    "length pool1 \<noteq> 0"
  have "poolSize pools1 + length pool = poolSize genreBookPool + length pool1"
    unfolding a(5) using a(3) by (rule poolSize_update)
  moreover have "length pool1 < length pool"
    using a(4,6) by (cases pool) (auto split: if_splits)
  ultimately show "((final1, rotation, (genreIndex + 1) mod length rotation, pools1),
      finalRecommendations, rotation, genreIndex, genreBookPool)
    \<in> measure (\<lambda>(f, rotation, i, pools). poolSize pools + length rotation)"
    by simp
qed


declare roundRobin.simps [simp del]

text \<open>
  \<open>GET /fetch/:userId\<close>, the round-robin version. \<open>random\<close> is the value of
  \<open>Math.random()\<close>, a number from 0 up to but not including 1.
\<close>

definition fetchRouteRoundRobin ::
  "Db \<Rightarrow> (string \<Rightarrow> googleResponse) \<Rightarrow> rat \<Rightarrow> int option \<Rightarrow> CandidateBook response \<times> effect list" where
  "fetchRouteRoundRobin db google random userId =
     (case userId of
        None \<Rightarrow> (\<lparr>status = 400, body = ErrorBody ''Invalid userId''\<rparr>, [])
      | Some uid \<Rightarrow>
          if uid = 0 then (\<lparr>status = 400, body = ErrorBody ''Invalid userId''\<rparr>, [])
          else
            let ugs = dbUserGenres db uid in
            if length ugs = 0
            then (\<lparr>status = 200, body = MessageBody ''User has no selected genres''\<rparr>, [])
            else
              case poolLoop google (dbSeen db uid) ugs [] [] of
                (Inl err, trace) \<Rightarrow>
                  (\<lparr>status = 500, body = ErrorBody ''Failed to fetch recommendations''\<rparr>, trace)
              | (Inr genreBookPool, trace) \<Rightarrow>
                  let rotation = map (\<lambda>ug. gid (ugGenre ug)) ugs;
                      genreIndex = nat \<lfloor>random * of_nat (length rotation)\<rfloor>
                  in case roundRobin [] rotation genreIndex genreBookPool of
                       Inl err \<Rightarrow>
                         (\<lparr>status = 500, body = ErrorBody ''Failed to fetch recommendations''\<rparr>, trace)
                     | Inr finalRecommendations \<Rightarrow>
                         (\<lparr>status = 200, body = BooksBody finalRecommendations\<rparr>, trace))"


section \<open>routes/search.ts\<close>

text \<open>A search result is a candidate with the id of its book in the store, 0 when the store
  does not know it. The published date is the text handed to \<open>new Date\<close>.\<close>

record SearchBook = CandidateBook +
  bookId :: int

text \<open>The reply to the lookup of one volume: its categories, when they are an array.\<close>

datatype volumeResponse = VolumeRejected nat | VolumeCategories "string list option"

definition fetchGoogleVolumeCategories :: "volumeResponse \<Rightarrow> error + string list" where
  "fetchGoogleVolumeCategories res =
     (case (case res of
              VolumeRejected st \<Rightarrow> Inl (HttpError st)
            | VolumeCategories None \<Rightarrow> Inr []
            | VolumeCategories (Some cs) \<Rightarrow> Inr cs)
      of Inl err \<Rightarrow> Inr [] | Inr cs \<Rightarrow> Inr cs)"

datatype searchResponse =
  SearchRejected nat | SearchItems "(Item \<times> coverResponse \<times> volumeResponse) list option"

text \<open>The callback that turns the metadata of one volume into a search result. The
  \<open>truncateDescription\<close> of this file first returns \<open>""\<close> for an empty text, which is
  what the one above returns for it as well.\<close>

definition toSearchBook ::
  "GenreLite list \<Rightarrow> string \<Rightarrow> VolumeInfo \<Rightarrow> coverResponse \<Rightarrow> volumeResponse \<Rightarrow>
   error + SearchBook option" where
  "toSearchBook gs metaId vi cover volume =
     (case fetchOpenLibraryCover cover of
        Inl err \<Rightarrow> Inl err
      | Inr None \<Rightarrow> Inr None
      | Inr (Some url) \<Rightarrow>
          if viDescription vi = [] then Inr None
          else if forbiddenTitle (viTitle vi) then Inr None
          else
            (case fetchGoogleVolumeCategories volume of
               Inl err \<Rightarrow> Inl err
             | Inr volumeCategories \<Rightarrow>
                 let categoriesForMatching =
                       (if length volumeCategories > 0 then volumeCategories else viCategories vi);
                     matchedGenres = matchGenresFromCategories categoriesForMatching gs
                 in Inr (Some
                   \<lparr>title = viTitle vi,
                    authors = authorsText (viAuthors vi),
                    publishedDate =
                      (if viPublishedDate vi = [] then None else Some (viPublishedDate vi)),
                    isbn = (if viIsbn13 vi = [] then None else Some (viIsbn13 vi)),
                    coverUrl = url,
                    googleBooksId = metaId,
                    description = truncateDescription (viDescription vi) 150,
                    averageRating = viAverageRating vi,
                    categories = categoriesForMatching,
                    sourceGenreIds = map gid matchedGenres,
                    sourceGenreNames = map gname matchedGenres,
                    bookId = 0\<rparr>)))"

text \<open>The key of the map that removes duplicates, the map itself (the first book of a key
  stays) and the comparator of the sort. \<open>localeCompare\<close> is the comparison of the
  platform and a parameter of the model.\<close>

definition searchKey :: "SearchBook \<Rightarrow> string" where
  "searchKey book = toLowerCase (title book) @ ''|'' @ toLowerCase (authors book)"

definition addUnique :: "(string \<times> SearchBook) list \<Rightarrow> SearchBook \<Rightarrow> (string \<times> SearchBook) list" where
  "addUnique uniqueBooksMap book =
     (let key = searchKey book
      in if key \<in> set (map fst uniqueBooksMap) then uniqueBooksMap
         else AList.update key book uniqueBooksMap)"

definition uniqueBooks :: "SearchBook list \<Rightarrow> SearchBook list" where
  "uniqueBooks filteredBooks = map snd (foldl addUnique [] filteredBooks)"

definition compareBooks :: "(string \<Rightarrow> string \<Rightarrow> int) \<Rightarrow> SearchBook \<Rightarrow> SearchBook \<Rightarrow> int" where
  "compareBooks localeCompare a b =
     (let tCompare = localeCompare (title a) (title b)
      in if tCompare \<noteq> 0 then tCompare else localeCompare (authors a) (authors b))"

text \<open>The metadata of the items that have \<open>volumeInfo\<close>.\<close>

definition metadataOf ::
  "(Item \<times> coverResponse \<times> volumeResponse) list \<Rightarrow> (string \<times> VolumeInfo \<times> coverResponse \<times> volumeResponse) list" where
  "metadataOf items = concat (map (\<lambda>(item, cover, volume).
                             case volumeInfo item of None \<Rightarrow> []
                             | Some vi \<Rightarrow> [(itemId item, vi, cover, volume)]) items)"

definition searchBooksFromGoogle ::
  "(string \<Rightarrow> string \<Rightarrow> int) \<Rightarrow> GenreLite list \<Rightarrow> searchResponse \<Rightarrow> error + SearchBook list" where
  "searchBooksFromGoogle localeCompare gs res =
     (case res of
        SearchRejected st \<Rightarrow> Inl (HttpError st)
      | SearchItems None \<Rightarrow> Inr []
      | SearchItems (Some items) \<Rightarrow>
          (case collect (map (\<lambda>(metaId, vi, cover, volume).
                                toSearchBook gs metaId vi cover volume) (metadataOf items)) of
             Inl err \<Rightarrow> Inl err
           | Inr filteredBooks \<Rightarrow>
               Inr (jsSort (compareBooks localeCompare) (uniqueBooks filteredBooks))))"

text \<open>The overlay with the genres of the store and \<open>GET /search\<close>.\<close>

definition overlay :: "(string \<times> BookRow) list \<Rightarrow> SearchBook \<Rightarrow> SearchBook" where
  "overlay existingByGoogleId b =
     (case map_of existingByGoogleId (googleBooksId b) of
        None \<Rightarrow> b
      | Some row \<Rightarrow>
          if length (rowGenres row) = 0 then b
          else b\<lparr>sourceGenreIds := map fst (rowGenres row),
                 sourceGenreNames := map snd (rowGenres row),
                 bookId := rowId row\<rparr>)"

definition searchRoute ::
  "Db \<Rightarrow> (string \<Rightarrow> string \<Rightarrow> int) \<Rightarrow> (string \<Rightarrow> searchResponse) \<Rightarrow> string \<Rightarrow> SearchBook response" where
  "searchRoute db localeCompare google query =
     (let q = trim query in
      if q = [] then \<lparr>status = 400, body = ErrorBody ''Missing query''\<rparr>
      else
        case searchBooksFromGoogle localeCompare (dbGenres db) (google q) of
          Inl err \<Rightarrow> \<lparr>status = 500, body = ErrorBody ''Failed to fetch search results''\<rparr>
        | Inr books \<Rightarrow>
            let existing = filter (\<lambda>row. rowGoogleBooksId row \<in> set (map googleBooksId books))
                             (dbBooks db);
                existingByGoogleId = newMap (map (\<lambda>row. (rowGoogleBooksId row, row)) existing);
                merged = map (overlay existingByGoogleId) books
            in \<lparr>status = 200, body = BooksBody merged\<rparr>)"

section \<open>Notions used in the statements\<close>

text \<open>The condition under which the first loop of the matcher records a genre: its full
  token set is not empty and one of its part token sets is contained in the token set of
  a category.\<close>

definition genreMatches :: "string list \<Rightarrow> GenreLite \<Rightarrow> bool" where
  "genreMatches cats g \<longleftrightarrow>
     tokenSet (gname g) \<noteq> [] \<and>
     matchesAnyCategory (partTokenSets (gname g)) (categoryTokenSets cats)"

text \<open>A string has three adjacent characters of \<open>[a-z0-9]\<close>.\<close>

definition alnumRun3 :: "string \<Rightarrow> bool" where
  "alnumRun3 x \<longleftrightarrow>
     (\<exists>a b c. sublist [a, b, c] x \<and> isLowerAlnum a \<and> isLowerAlnum b \<and> isLowerAlnum c)"

text \<open>The descriptive fields of a candidate: all fields but the source genres.\<close>

definition descriptiveFields :: "CandidateBook \<Rightarrow> CandidateBook" where
  "descriptiveFields c = c\<lparr>sourceGenreIds := [], sourceGenreNames := []\<rparr>"

text \<open>A candidate for the scenarios of the scorer.\<close>

definition scenarioCandidate :: CandidateBook where
  "scenarioCandidate =
     \<lparr>title = ''Dune'', authors = ''Frank Herbert'', publishedDate = Some ''1965'', isbn = None,
      coverUrl = ''https://covers.openlibrary.org/b/id/1-L.jpg'', googleBooksId = ''g1'',
      description = ''Desert planet'', averageRating = 4, categories = [],
      sourceGenreIds = [7], sourceGenreNames = [''Science Fiction'']\<rparr>"

text \<open>Two more records under the key of the scenario candidate: one with a lower rating,
  one with the same rating and a description of the same length; and two genres.\<close>

definition lowerRatedCandidate :: CandidateBook where
  "lowerRatedCandidate =
     scenarioCandidate\<lparr>googleBooksId := ''g2'', averageRating := 7 / 2,
       coverUrl := ''https://covers.openlibrary.org/b/id/2-L.jpg''\<rparr>"

definition tiedCandidate :: CandidateBook where
  "tiedCandidate =
     scenarioCandidate\<lparr>googleBooksId := ''g3'', description := ''Planet desert'',
       coverUrl := ''https://covers.openlibrary.org/b/id/3-L.jpg''\<rparr>"

definition genreA :: GenreLite where
  "genreA = \<lparr>gid = 1, gname = ''Fiction''\<rparr>"

definition genreB :: GenreLite where
  "genreB = \<lparr>gid = 2, gname = ''Science Fiction''\<rparr>"

text \<open>A lookup yields no cover.\<close>

definition noCover :: "coverResponse \<Rightarrow> bool" where
  "noCover cover \<longleftrightarrow> fetchOpenLibraryCover cover = Inr None"

text \<open>What is assumed of \<open>localeCompare\<close>: it orders the strings by their collation keys.
  So it returns a negative number exactly when the reversed call returns a positive one,
  and its \<open>\<le> 0\<close> is transitive. It may return 0 for two different strings: the
  collation ignores some characters and identifies some spellings.\<close>

definition consistentComparator :: "(string \<Rightarrow> string \<Rightarrow> int) \<Rightarrow> bool" where
  "consistentComparator lc \<longleftrightarrow>
     (\<forall>a b. lc a b < 0 \<longleftrightarrow> lc b a > 0) \<and>
     (\<forall>a b c. lc a b \<le> 0 \<and> lc b c \<le> 0 \<longrightarrow> lc a c \<le> 0)"

text \<open>The books of a search reply before the sort: those that pass the filters, the first
  of each key, in the order of the reply.\<close>

definition dedupedBooks ::
  "GenreLite list \<Rightarrow> (Item \<times> coverResponse \<times> volumeResponse) list \<Rightarrow> SearchBook list" where
  "dedupedBooks gs items =
     (case collect (map (\<lambda>(metaId, vi, cover, volume). toSearchBook gs metaId vi cover volume)
                     (metadataOf items)) of
        Inl err \<Rightarrow> []
      | Inr filteredBooks \<Rightarrow> uniqueBooks filteredBooks)"

text \<open>The books of an answer.\<close>

definition booksOf :: "'b response \<Rightarrow> 'b list" where
  "booksOf r = (case body r of BooksBody bs \<Rightarrow> bs | _ \<Rightarrow> [])"

text \<open>For the scenarios of the routes: a volume and its item, a store in which user 1
  prefers one genre and user 2 none, a metadata service whose single item gets no cover
  because the cover service limits the rate, and a search reply with a duplicate.\<close>

definition exampleVolume :: VolumeInfo where
  "exampleVolume =
     \<lparr>viTitle = ''Dune'', viAuthors = [''Frank Herbert''],
      viPublishedDate = ''1965-08-01'', viDescription = ''Desert planet'',
      viAverageRating = 4, viCategories = [''Science Fiction''], viIsbn13 = []\<rparr>"

definition exampleItem :: Item where
  "exampleItem = \<lparr>itemId = ''g1'', volumeInfo = Some exampleVolume\<rparr>"

definition exampleDb :: Db where
  "exampleDb =
     \<lparr>dbUserGenres = (\<lambda>u. if u = 1 then [\<lparr>ugGenreId = 2, ugGenre = \<lparr>gid = 2, gname = ''Science Fiction''\<rparr>\<rparr>] else []),
      dbToRead = (\<lambda>u. []),
      dbFinished = (\<lambda>u. []),
      dbSeen = (\<lambda>u. []),
      dbGenres = [\<lparr>gid = 1, gname = ''Fiction''\<rparr>, \<lparr>gid = 2, gname = ''Science Fiction''\<rparr>],
      dbBooks = []\<rparr>"

definition rateLimitedGoogle :: "string \<Rightarrow> googleResponse" where
  "rateLimitedGoogle q = GoogleItems [(exampleItem, CoverRejected 429)]"

definition rateLimitedSearch :: "string \<Rightarrow> searchResponse" where
  "rateLimitedSearch q = SearchItems (Some [(exampleItem, CoverRejected 429, VolumeRejected 429)])"

definition exampleSearch :: "string \<Rightarrow> searchResponse" where
  "exampleSearch q =
     SearchItems (Some
       [(\<lparr>itemId = ''g5'', volumeInfo = Some (exampleVolume\<lparr>viTitle := ''Emma''\<rparr>)\<rparr>,
           CoverDocs (Some [\<lparr>cover_i = 5\<rparr>]), VolumeCategories None),
        (exampleItem, CoverDocs (Some [\<lparr>cover_i = 1\<rparr>]), VolumeRejected 500),
        (\<lparr>itemId = ''g6'', volumeInfo = Some (exampleVolume\<lparr>viTitle := ''DUNE''\<rparr>)\<rparr>,
           CoverDocs (Some [\<lparr>cover_i = 6\<rparr>]), VolumeCategories (Some []))])"

text \<open>A comparison for the scenarios of the search: by code units, after the soft hyphens
  (U+00AD) are left out, which the collation of the platform ignores as well.\<close>

definition softHyphen :: char where
  "softHyphen = CHR 0xAD"

definition collationKey :: "string \<Rightarrow> nat list" where
  "collationKey a = map code (filter (\<lambda>c. c \<noteq> softHyphen) a)"

definition collationCompare :: "string \<Rightarrow> string \<Rightarrow> int" where
  "collationCompare a b =
     (if collationKey a < collationKey b then - 1
      else if collationKey a = collationKey b then 0 else 1)"

text \<open>The title of the example volume with a soft hyphen in it, its item, and the two
  search replies that list the two volumes of the two spellings in either order.\<close>

definition hyphenatedTitle :: string where
  "hyphenatedTitle = ''Du'' @ [softHyphen] @ ''ne''"

definition hyphenatedItem :: Item where
  "hyphenatedItem = \<lparr>itemId = ''g8'', volumeInfo = Some (exampleVolume\<lparr>viTitle := hyphenatedTitle\<rparr>)\<rparr>"

definition plainFirstSearch :: "string \<Rightarrow> searchResponse" where
  "plainFirstSearch q =
     SearchItems (Some
       [(exampleItem, CoverDocs (Some [\<lparr>cover_i = 1\<rparr>]), VolumeCategories None),
        (hyphenatedItem, CoverDocs (Some [\<lparr>cover_i = 8\<rparr>]), VolumeCategories None)])"

definition hyphenatedFirstSearch :: "string \<Rightarrow> searchResponse" where
  "hyphenatedFirstSearch q =
     SearchItems (Some
       [(hyphenatedItem, CoverDocs (Some [\<lparr>cover_i = 8\<rparr>]), VolumeCategories None),
        (exampleItem, CoverDocs (Some [\<lparr>cover_i = 1\<rparr>]), VolumeCategories None)])"

chapter \<open>Verification\<close>

section \<open>The two tokenizers\<close>

lemma splitWs_nonempty: "splitWs s \<noteq> []"
  by (induction s rule: splitWs.induct) (auto simp: consFirst_def split: list.splits)

lemma isLowerAlnum_not_space: "isLowerAlnum c \<Longrightarrow> \<not> isSpace c"
  by (auto simp: isLowerAlnum_def isSpace_def)

lemma space_is_space: "isSpace CHR '' ''"
  by (simp add: isSpace_def code_def)

lemma splitWs_Cons_space:
  "isSpace c \<Longrightarrow> splitWs (c # s) = (if s \<noteq> [] \<and> isSpace (hd s) then splitWs s else [] # splitWs s)"
  by (cases s) auto

lemma splitWs_Cons_nonspace:
  "\<not> isSpace c \<Longrightarrow> splitWs (c # s) = consFirst c (splitWs s)"
  by (cases s) (auto simp: consFirst_def)

lemma replaceNonAlnumRuns_Nil_iff: "replaceNonAlnumRuns s = [] \<longleftrightarrow> s = []"
  by (induction s rule: replaceNonAlnumRuns.induct) auto

lemma hd_replaceNonAlnumRuns:
  "s \<noteq> [] \<Longrightarrow> hd (replaceNonAlnumRuns s) = (if isLowerAlnum (hd s) then hd s else CHR '' '')"
  by (induction s rule: replaceNonAlnumRuns.induct) auto

lemma splitWs_replace_eq:
  "splitWs (replaceNonAlnumRuns s) = splitWs (replaceNonAlnumOrSpace s)"
proof (induction s rule: replaceNonAlnumRuns.induct)
  case 1
  show ?case by (simp add: replaceNonAlnumOrSpace_def)
next
  case (2 c)
  show ?case
    by (auto simp: replaceNonAlnumOrSpace_def space_is_space dest: isLowerAlnum_not_space)
next
  case (3 c d cs)
  let ?r = "replaceNonAlnumRuns (d # cs)"
  let ?m = "replaceNonAlnumOrSpace (d # cs)"
  have m: "replaceNonAlnumOrSpace (c # d # cs) =
      (if isLowerAlnum c \<or> isSpace c then c else CHR '' '') # ?m"
    by (simp add: replaceNonAlnumOrSpace_def)
  have hm: "?m \<noteq> []" "hd ?m = (if isLowerAlnum d \<or> isSpace d then d else CHR '' '')"
    by (simp_all add: replaceNonAlnumOrSpace_def)
  have hr: "?r \<noteq> []" "hd ?r = (if isLowerAlnum d then d else CHR '' '')"
    using hd_replaceNonAlnumRuns[of "d # cs"] by (simp_all add: replaceNonAlnumRuns_Nil_iff)
  show ?case
  proof (cases "isLowerAlnum c")
    case True
    then have "\<not> isSpace c" by (rule isLowerAlnum_not_space)
    have "splitWs (replaceNonAlnumRuns (c # d # cs)) = splitWs (c # ?r)"
      using True by simp
    also have "\<dots> = consFirst c (splitWs ?r)"
      using \<open>\<not> isSpace c\<close> by (rule splitWs_Cons_nonspace)
    also have "\<dots> = consFirst c (splitWs ?m)"
      using 3 True by simp
    also have "\<dots> = splitWs (c # ?m)"
      using \<open>\<not> isSpace c\<close> by (rule splitWs_Cons_nonspace[symmetric])
    also have "c # ?m = replaceNonAlnumOrSpace (c # d # cs)"
      using True by (simp add: m)
    finally show ?thesis .
  next
    case False
    then have sp: "isSpace (if isLowerAlnum c \<or> isSpace c then c else CHR '' '')"
      by (simp add: space_is_space)
    show ?thesis
    proof (cases "isLowerAlnum d")
      case True
      then have nd: "\<not> isSpace d" by (rule isLowerAlnum_not_space)
      have "splitWs (replaceNonAlnumRuns (c # d # cs)) = splitWs (CHR '' '' # ?r)"
        using False True by simp
      also have "\<dots> = [] # splitWs ?r"
        using hr True nd by (simp add: splitWs_Cons_space space_is_space)
      also have "\<dots> = [] # splitWs ?m"
        using 3 False True by simp
      also have "\<dots> = splitWs (replaceNonAlnumOrSpace (c # d # cs))"
        using hm True nd sp by (simp add: m splitWs_Cons_space)
      finally show ?thesis .
    next
      case nad: False
      have "splitWs (replaceNonAlnumRuns (c # d # cs)) = splitWs ?r"
        using False nad by simp
      also have "\<dots> = splitWs ?m"
        using 3 False nad by simp
      also have "\<dots> = splitWs (replaceNonAlnumOrSpace (c # d # cs))"
        using hm nad sp by (simp add: m splitWs_Cons_space space_is_space)
      finally show ?thesis .
    qed
  qed
qed


lemma splitWs_no_space_all: "\<forall>p\<in>set (splitWs s). \<forall>c\<in>set p. \<not> isSpace c"
proof (induction s rule: splitWs.induct)
  case 1
  show ?case by simp
next
  case (2 c)
  show ?case by simp
next
  case (3 c d cs)
  obtain q qs where q: "splitWs (d # cs) = q # qs"
    using splitWs_nonempty[of "d # cs"] by (cases "splitWs (d # cs)") auto
  show ?case
  proof (cases "isSpace c")
    case True
    with 3 show ?thesis by (cases "isSpace d") simp_all
  next
    case False
    with 3 q show ?thesis by (simp add: consFirst_def)
  qed
qed

lemma splitWs_no_space: "p \<in> set (splitWs s) \<Longrightarrow> c \<in> set p \<Longrightarrow> \<not> isSpace c"
  using splitWs_no_space_all by blast

lemma dropWhile_none: "\<forall>x\<in>set xs. \<not> P x \<Longrightarrow> dropWhile P xs = xs"
  by (cases xs) simp_all

lemma trim_no_space: "\<forall>c\<in>set p. \<not> isSpace c \<Longrightarrow> trim p = p"
  by (simp add: trim_def dropWhile_none)

lemma map_trim_splitWs: "map trim (splitWs s) = splitWs s"
  by (rule map_idI) (auto intro!: trim_no_space dest: splitWs_no_space)

lemma filter_splitWs_Cons_space:
  assumes "isSpace c" and "\<not> P []"
  shows "filter P (splitWs (c # s)) = filter P (splitWs s)"
  using assms by (simp add: splitWs_Cons_space)

lemma filter_splitWs_dropWhile:
  assumes "\<not> P []"
  shows "filter P (splitWs (dropWhile isSpace s)) = filter P (splitWs s)"
  using assms by (induction s) (simp_all add: filter_splitWs_Cons_space del: splitWs.simps)

lemma splitWs_snoc_space:
  "isSpace w \<Longrightarrow>
   splitWs (s @ [w]) = (if s \<noteq> [] \<and> isSpace (last s) then splitWs s else splitWs s @ [[]])"
proof (induction s rule: splitWs.induct)
  case 1
  then show ?case by simp
next
  case (2 c)
  then show ?case by (simp add: consFirst_def)
next
  case (3 c d cs)
  then show ?case
    using splitWs_nonempty[of "d # cs"]
    by (auto simp: consFirst_def split: list.splits)
qed

lemma filter_splitWs_snoc_space:
  assumes "isSpace w" and "\<not> P []"
  shows "filter P (splitWs (s @ [w])) = filter P (splitWs s)"
  using assms by (simp add: splitWs_snoc_space)

lemma filter_splitWs_dropWhile_end:
  assumes "\<not> P []"
  shows "filter P (splitWs (rev (dropWhile isSpace (rev s)))) = filter P (splitWs s)"
proof (induction s rule: rev_induct)
  case Nil
  show ?case by simp
next
  case (snoc w s)
  show ?case
  proof (cases "isSpace w")
    case True
    then show ?thesis
      using snoc assms by (simp add: filter_splitWs_snoc_space del: splitWs.simps)
  next
    case False
    then show ?thesis by simp
  qed
qed

lemma filter_splitWs_trim:
  assumes "\<not> P []"
  shows "filter P (splitWs (trim s)) = filter P (splitWs s)"
  using assms by (simp add: trim_def filter_splitWs_dropWhile_end filter_splitWs_dropWhile)

text \<open>
  Claim C7. For every string, \<open>tokenize\<close> of the recommendations route builds the set of
  the tokens that \<open>tokenizeWords\<close> returns: the same elements, and even in the same
  insertion order.
\<close>

theorem tokenize_eq_tokenizeWords:
  "tokenize text = newSet (tokenizeWords text) \<and> set (tokenize text) = set (tokenizeWords text)"
proof -
  have "tokenize text = newSet (tokenizeWords text)"
    unfolding tokenize_def tokenizeWords_def
    by (simp add: map_trim_splitWs filter_splitWs_trim splitWs_replace_eq)
  then show ?thesis by (simp add: newSet_def)
qed

section \<open>The genre matcher: pruning\<close>

lemma set_newSet: "set (newSet xs) = set xs"
  by (simp add: newSet_def)

lemma distinct_newSet: "distinct (newSet xs)"
  by (simp add: newSet_def)

lemma length_newSet: "length (newSet xs) = card (set xs)"
  using distinct_card[OF distinct_newSet, of xs] by (simp add: set_newSet)

lemma isTokenSubset_iff: "isTokenSubset a b \<longleftrightarrow> set a \<subseteq> set b"
  by (auto simp: isTokenSubset_def list_all_iff)

lemma length_tokenSet: "length (tokenSet v) = card (set (tokenSet v))"
  by (simp add: tokenSet_def length_newSet set_newSet)

lemma update_fresh: "k \<notin> fst ` set al \<Longrightarrow> AList.update k v al = al @ [(k, v)]"
  by (induction al) auto

lemma matchLoop_invariant:
  assumes "distinct (map gid genres)"
  shows "matchedById (matchLoop cats genres) =
           map (\<lambda>g. (gid g, g)) (filter (genreMatches cats) genres) \<and>
         (\<forall>g\<in>set genres. tokenSet (gname g) \<noteq> [] \<longrightarrow>
            map_of (genreTokensById (matchLoop cats genres)) (gid g) = Some (tokenSet (gname g)))"
  using assms
proof (induction genres rule: rev_induct)
  case Nil
  show ?case by (simp add: matchLoop_def)
next
  case (snoc g genres)
  let ?st = "matchLoop cats genres"
  have d: "distinct (map gid genres)" and fresh: "gid g \<notin> gid ` set genres"
    using snoc.prems by auto
  note IH = snoc.IH[OF d]
  have step: "matchLoop cats (genres @ [g]) = matchStep (categoryTokenSets cats) ?st g"
    by (simp add: matchLoop_def)
  have keys: "gid g \<notin> fst ` set (matchedById ?st)"
    using IH fresh by (auto simp: image_iff)
  have old: "\<And>h. h \<in> set genres \<Longrightarrow> gid h \<noteq> gid g"
    using fresh by (metis imageI)
  show ?case
  proof (cases "tokenSet (gname g) = []")
    case True
    then show ?thesis
      using IH by (simp add: step matchStep_def genreMatches_def)
  next
    case False
    then show ?thesis
      using IH keys old
      by (auto simp: step matchStep_def genreMatches_def Let_def update_fresh update_conv')
  qed
qed

lemma set_pruneIds_gen:
  "set (foldl (\<lambda>pr a. if P a then removeAll a pr else pr) pr0 xs) =
     {a \<in> set pr0. \<not> (a \<in> set xs \<and> P a)}"
  by (induction xs arbitrary: pr0) auto

lemma set_pruneIds: "set (pruneIds T ids) = {a \<in> set ids. \<not> prunedBy T ids a}"
  unfolding pruneIds_def by (subst set_pruneIds_gen) (auto simp: set_newSet)


lemma rawMatched_distinct:
  assumes "distinct (map gid genres)"
  shows "rawMatched cats genres = filter (genreMatches cats) genres"
  using matchLoop_invariant[OF assms, of cats]
  by (simp add: rawMatched_def comp_def)

lemma matchStep_no_categories: "matchedById (matchStep [] st g) = matchedById st"
  by (simp add: matchStep_def matchesAnyCategory_def Let_def)

lemma matchLoop_no_categories: "matchedById (foldl (matchStep []) st genres) = matchedById st"
  by (induction genres arbitrary: st) (simp_all add: matchStep_no_categories)

lemma rawMatched_empty: "rawMatched [] genres = []" "rawMatched cats [] = []"
  by (simp_all add: rawMatched_def matchLoop_def categoryTokenSets_def matchLoop_no_categories)

lemma matchGenres_filter:
  "matchGenresFromCategories cats genres =
     filter (\<lambda>g. \<not> prunedBy (genreTokensById (matchLoop cats genres))
                      (map gid (rawMatched cats genres)) (gid g))
       (rawMatched cats genres)"
proof (cases "cats = [] \<or> genres = []")
  case True
  then show ?thesis
    by (auto simp: matchGenresFromCategories_def rawMatched_empty)
next
  case False
  then show ?thesis
    by (auto simp: matchGenresFromCategories_def rawMatched_def Let_def set_pruneIds
             intro!: filter_cong)
qed

lemma prunedBy_distinct:
  assumes d: "distinct (map gid genres)"
    and A: "A \<in> set (rawMatched cats genres)"
  shows "prunedBy (genreTokensById (matchLoop cats genres))
           (map gid (rawMatched cats genres)) (gid A) \<longleftrightarrow>
         (\<exists>B\<in>set (rawMatched cats genres). B \<noteq> A \<and>
            length (tokenSet (gname A)) < length (tokenSet (gname B)) \<and>
            set (tokenSet (gname A)) \<subseteq> set (tokenSet (gname B)))"
proof -
  let ?T = "genreTokensById (matchLoop cats genres)"
  let ?raw = "rawMatched cats genres"
  have raw: "?raw = filter (genreMatches cats) genres"
    by (rule rawMatched_distinct[OF d])
  have look: "map_of ?T (gid g) = Some (tokenSet (gname g))" if "g \<in> set ?raw" for g
    using that matchLoop_invariant[OF d, of cats] by (simp add: raw genreMatches_def)
  have inj: "gid g = gid h \<longleftrightarrow> g = h" if "g \<in> set ?raw" "h \<in> set ?raw" for g h
    using that d by (auto simp: raw distinct_map inj_on_def)
  have "prunedBy ?T (map gid ?raw) (gid A) \<longleftrightarrow>
        (\<exists>B\<in>set ?raw. gid A \<noteq> gid B \<and>
            \<not> length (tokenSet (gname B)) \<le> length (tokenSet (gname A)) \<and>
            isTokenSubset (tokenSet (gname A)) (tokenSet (gname B)))"
    using look[OF A] look by (simp add: prunedBy_def list_ex_iff cong: bex_cong)
  also have "\<dots> \<longleftrightarrow> (\<exists>B\<in>set ?raw. B \<noteq> A \<and>
            length (tokenSet (gname A)) < length (tokenSet (gname B)) \<and>
            set (tokenSet (gname A)) \<subseteq> set (tokenSet (gname B)))"
    by (intro bex_cong refl) (use inj[OF A] in \<open>auto simp: isTokenSubset_iff\<close>)
  finally show ?thesis .
qed

text \<open>
  Claim C1. The taxonomy is a list of genres with pairwise different ids (the id is the
  key of the genre table). Among the raw matches, a genre \<open>A\<close> is missing from the
  result exactly when another raw match \<open>B\<close> has a full token set with more elements
  that contains the one of \<open>A\<close>. The result is part of the raw match set; a raw match
  whose token set is at least as large as every other one is kept, so no genre is pruned
  by one of equal size; and the token set of a genre in the result is never a proper subset
  of the token set of a raw match.
\<close>

theorem pruning_law:
  assumes "distinct (map gid genres)"
  shows "(\<forall>A\<in>set (rawMatched cats genres).
            A \<notin> set (matchGenresFromCategories cats genres) \<longleftrightarrow>
            (\<exists>B\<in>set (rawMatched cats genres). B \<noteq> A \<and>
               card (set (tokenSet (gname A))) < card (set (tokenSet (gname B))) \<and>
               set (tokenSet (gname A)) \<subseteq> set (tokenSet (gname B)))) \<and>
         set (matchGenresFromCategories cats genres) \<subseteq> set (rawMatched cats genres) \<and>
         (\<forall>A\<in>set (rawMatched cats genres).
            (\<forall>B\<in>set (rawMatched cats genres).
               card (set (tokenSet (gname B))) \<le> card (set (tokenSet (gname A)))) \<longrightarrow>
            A \<in> set (matchGenresFromCategories cats genres)) \<and>
         (\<forall>A\<in>set (matchGenresFromCategories cats genres).
            \<forall>B\<in>set (rawMatched cats genres).
              \<not> set (tokenSet (gname A)) \<subset> set (tokenSet (gname B)))"
proof -
  let ?raw = "rawMatched cats genres"
  let ?res = "matchGenresFromCategories cats genres"
  let ?tok = "\<lambda>g. set (tokenSet (gname g))"
  have sub: "set ?res \<subseteq> set ?raw"
    by (subst matchGenres_filter) auto
  have law: "A \<notin> set ?res \<longleftrightarrow>
      (\<exists>B\<in>set ?raw. B \<noteq> A \<and> card (?tok A) < card (?tok B) \<and> ?tok A \<subseteq> ?tok B)"
    if "A \<in> set ?raw" for A
    using that prunedBy_distinct[OF assms that]
    by (subst matchGenres_filter) (auto simp: length_tokenSet)
  have eq: "A \<in> set ?res"
    if "A \<in> set ?raw" "\<forall>B\<in>set ?raw. card (?tok B) \<le> card (?tok A)" for A
    using that law[OF that(1)] by (auto simp: not_less)
  have gen: "\<not> ?tok A \<subset> ?tok B" if "A \<in> set ?res" "B \<in> set ?raw" for A B
  proof
    assume ss: "?tok A \<subset> ?tok B"
    then have "card (?tok A) < card (?tok B)"
      by (simp add: psubset_card_mono)
    moreover from ss have "B \<noteq> A" "?tok A \<subseteq> ?tok B" by auto
    ultimately have "A \<notin> set ?res"
      using law[of A] sub that by blast
    with that show False by simp
  qed
  from sub law eq gen show ?thesis by blast
qed

text \<open>The pruning law at Scenario A: Fiction is pruned by Science Fiction.\<close>

theorem pruning_law_witness:
  "distinct (map gid [\<lparr>gid = 1, gname = ''Fiction''\<rparr>, \<lparr>gid = 2, gname = ''Science Fiction''\<rparr>]) \<and>
   \<lparr>gid = 1, gname = ''Fiction''\<rparr> \<notin> set (matchGenresFromCategories [''Science Fiction'']
      [\<lparr>gid = 1, gname = ''Fiction''\<rparr>, \<lparr>gid = 2, gname = ''Science Fiction''\<rparr>])"
proof -
  let ?A = "\<lparr>gid = 1, gname = ''Fiction''\<rparr>"
  let ?B = "\<lparr>gid = 2, gname = ''Science Fiction''\<rparr>"
  let ?gs = "[?A, ?B]"
  have d: "distinct (map gid ?gs)" by simp
  have raw: "rawMatched [''Science Fiction''] ?gs = ?gs" by code_simp
  have t: "set (tokenSet (gname ?A)) \<subseteq> set (tokenSet (gname ?B))" by code_simp
  have c: "card (set (tokenSet (gname ?A))) < card (set (tokenSet (gname ?B)))" by code_simp
  have ne: "?B \<noteq> ?A" by simp
  from pruning_law[OF d, of "[''Science Fiction'']"] raw t c ne
  have "?A \<notin> set (matchGenresFromCategories [''Science Fiction''] ?gs)"
    by (metis list.set_intros(1) list.set_intros(2))
  with d show ?thesis by blast
qed

section \<open>The genre matcher: raw matches\<close>

lemma hd_splitWs: "hd (splitWs s) = takeWhile (\<lambda>c. \<not> isSpace c) s"
proof (induction s rule: splitWs.induct)
  case (3 c d cs)
  then show ?case
    using splitWs_nonempty[of "d # cs"]
    by (cases "splitWs (d # cs)") (auto simp: consFirst_def)
qed simp_all

lemma splitWs_sublist: "p \<in> set (splitWs s) \<Longrightarrow> sublist p s"
proof (induction s arbitrary: p rule: splitWs.induct)
  case 1
  then show ?case by simp
next
  case (2 c)
  then show ?case by (auto split: if_splits)
next
  case (3 c d cs)
  obtain q qs where q: "splitWs (d # cs) = q # qs"
    using splitWs_nonempty[of "d # cs"] by (cases "splitWs (d # cs)") auto
  have "sublist p (d # cs)" if "p \<in> set (splitWs (d # cs))"
    using that "3.IH" by (cases "isSpace c"; cases "isSpace d") auto
  then have tl: "sublist p (c # d # cs)" if "p \<in> set (splitWs (d # cs))"
    using that by (simp add: sublist_Cons_right)
  show ?case
  proof (cases "isSpace c")
    case True
    with 3(4) tl show ?thesis by (auto split: if_splits)
  next
    case False
    with 3(4) q have "p = c # q \<or> p \<in> set qs"
      by (simp add: consFirst_def)
    then show ?thesis
    proof
      assume "p = c # q"
      moreover have "q = takeWhile (\<lambda>c. \<not> isSpace c) (d # cs)"
        using hd_splitWs[of "d # cs"] q by simp
      ultimately have "prefix p (c # d # cs)"
        using False by (simp add: takeWhile_is_prefix)
      then show ?thesis by (rule prefix_imp_sublist)
    next
      assume "p \<in> set qs"
      then show ?thesis using tl q by simp
    qed
  qed
qed


lemma alnumRun3_mono: "alnumRun3 x \<Longrightarrow> sublist x y \<Longrightarrow> alnumRun3 y"
  unfolding alnumRun3_def by (meson sublist_order.order_trans)

lemma replaced_nonspace:
  "\<not> isSpace (if isLowerAlnum c \<or> isSpace c then c else CHR '' '') \<longleftrightarrow> isLowerAlnum c"
  using isLowerAlnum_not_space[of c] space_is_space by auto

lemma long_piece_prepend:
  assumes "\<exists>t\<in>set (splitWs s). n \<le> length t"
  shows "\<exists>t\<in>set (splitWs (d # s)). n \<le> length t"
proof -
  obtain q qs where q: "splitWs s = q # qs"
    using splitWs_nonempty[of s] by (cases "splitWs s") auto
  show ?thesis
  proof (cases "isSpace d")
    case True
    with assms show ?thesis by (auto simp: splitWs_Cons_space)
  next
    case False
    from assms q obtain t where "t = q \<or> t \<in> set qs" "n \<le> length t" by auto
    then show ?thesis
      using False q by (auto simp: splitWs_Cons_nonspace consFirst_def)
  qed
qed

lemma long_piece_append_left:
  assumes "\<exists>t\<in>set (splitWs s). n \<le> length t"
  shows "\<exists>t\<in>set (splitWs (ps @ s)). n \<le> length t"
  using assms by (induction ps) (auto intro: long_piece_prepend simp del: splitWs.simps)

lemma long_piece_iff:
  "(\<exists>t\<in>set (splitWs (replaceNonAlnumOrSpace x)). 3 \<le> length t) \<longleftrightarrow> alnumRun3 x"
proof
  assume "\<exists>t\<in>set (splitWs (replaceNonAlnumOrSpace x)). 3 \<le> length t"
  then obtain t where t: "t \<in> set (splitWs (replaceNonAlnumOrSpace x))" "3 \<le> length t"
    by blast
  define r where "r = (\<lambda>c. if isLowerAlnum c \<or> isSpace c then c else CHR '' '')"
  from t(1) have "sublist t (map r x)"
    using splitWs_sublist by (simp add: replaceNonAlnumOrSpace_def r_def)
  then obtain t' where t': "sublist t' x" "t = map r t'"
    using sublist_map_rightE by blast
  have ns: "\<not> isSpace c" if "c \<in> set t" for c
    using splitWs_no_space[OF t(1) that] .
  have al: "isLowerAlnum c" if "c \<in> set t'" for c
  proof -
    from that have "r c \<in> set t" by (simp add: t'(2))
    then have "\<not> isSpace (r c)" by (rule ns)
    then show ?thesis unfolding r_def by (simp only: replaced_nonspace)
  qed
  from t(2) t'(2) obtain a b c u where u: "t' = a # b # c # u"
    by (cases t'; cases "tl t'"; cases "tl (tl t')") auto
  have "sublist [a, b, c] t'"
    unfolding u using sublist_append_rightI[of "[a, b, c]" u] by simp
  then have "sublist [a, b, c] x"
    using t'(1) by (rule sublist_order.order_trans)
  moreover have "isLowerAlnum a" "isLowerAlnum b" "isLowerAlnum c"
    using al u by auto
  ultimately show "alnumRun3 x"
    unfolding alnumRun3_def by blast
next
  assume "alnumRun3 x"
  then obtain a b c ps ss where x: "x = ps @ [a, b, c] @ ss"
      and al: "isLowerAlnum a" "isLowerAlnum b" "isLowerAlnum c"
    unfolding alnumRun3_def sublist_def by blast
  let ?y = "replaceNonAlnumOrSpace ([a, b, c] @ ss)"
  have y: "?y = a # b # c # replaceNonAlnumOrSpace ss"
    using al by (simp add: replaceNonAlnumOrSpace_def)
  have "3 \<le> length (hd (splitWs ?y))"
    unfolding hd_splitWs y using al by (simp add: isLowerAlnum_not_space)
  moreover have "hd (splitWs ?y) \<in> set (splitWs ?y)"
    using splitWs_nonempty by simp
  ultimately have "\<exists>t\<in>set (splitWs ?y). 3 \<le> length t"
    by blast
  then have "\<exists>t\<in>set (splitWs (replaceNonAlnumOrSpace ps @ ?y)). 3 \<le> length t"
    by (rule long_piece_append_left)
  then show "\<exists>t\<in>set (splitWs (replaceNonAlnumOrSpace x)). 3 \<le> length t"
    by (simp add: x replaceNonAlnumOrSpace_def)
qed

lemma tokenizeWords_splitWs:
  "tokenizeWords v =
     filter (\<lambda>t. 3 \<le> length t) (splitWs (replaceNonAlnumOrSpace (toLowerCase v)))"
  by (simp add: tokenizeWords_def filter_splitWs_trim splitWs_replace_eq)

lemma tokenizeWords_nonempty_iff: "tokenizeWords v \<noteq> [] \<longleftrightarrow> alnumRun3 (toLowerCase v)"
  unfolding tokenizeWords_splitWs long_piece_iff[symmetric]
  by (auto simp: filter_empty_conv)

lemma tokenSet_nonempty_iff: "tokenSet v \<noteq> [] \<longleftrightarrow> alnumRun3 (toLowerCase v)"
  using tokenizeWords_nonempty_iff[of v] set_newSet[of "tokenizeWords v"]
  by (metis set_empty tokenSet_def)

lemma splitSep_sublist: "q \<in> set (splitSep pw cur rest) \<Longrightarrow> sublist q (cur @ rest)"
proof (induction pw cur rest arbitrary: q rule: splitSep.induct)
  case (1 pw cur)
  then show ?case by simp
next
  case (2 pw cur c cs)
  show ?case
  proof (cases "isPartSeparator c")
    case True
    with 2(4) have "q = cur \<or> q \<in> set (splitSep False [] cs)" by simp
    then show ?thesis
    proof
      assume "q = cur" then show ?thesis by simp
    next
      assume "q \<in> set (splitSep False [] cs)"
      then have "sublist q cs" using 2(1)[OF True] by simp
      then show ?thesis
        using sublist_appendI[of cs "cur @ [c]" "[]"] by (auto intro: sublist_order.order_trans)
    qed
  next
    case sep: False
    show ?thesis
    proof (cases "\<not> pw \<and> matchesAnd (c # cs)")
      case True
      with sep 2(4) have "q = cur \<or> q \<in> set (splitSep True [] (drop 2 cs))" by simp
      then show ?thesis
      proof
        assume "q = cur" then show ?thesis by simp
      next
        assume "q \<in> set (splitSep True [] (drop 2 cs))"
        then have "sublist q (drop 2 cs)" using 2(2)[OF sep True] by simp
        moreover have "sublist (drop 2 cs) (cur @ c # cs)"
          using sublist_appendI[of cs "cur @ [c]" "[]"] sublist_drop[of 2 cs]
          by (auto intro: sublist_order.order_trans)
        ultimately show ?thesis by (rule sublist_order.order_trans)
      qed
    next
      case False
      with sep 2(4) have "q \<in> set (splitSep (isWordChar c) (cur @ [c]) cs)" by auto
      then show ?thesis using 2(3)[OF sep False] by simp
    qed
  qed
qed

lemma trim_sublist: "sublist (trim q) q"
proof -
  have "sublist (rev (dropWhile isSpace (rev (dropWhile isSpace q)))) (dropWhile isSpace q)"
    by (simp add: sublist_rev_left)
  then show ?thesis
    unfolding trim_def using sublist_dropWhile[of isSpace q] by (rule sublist_order.order_trans)
qed

lemma splitGenreParts_sublist: "p \<in> set (splitGenreParts n) \<Longrightarrow> sublist p n"
  unfolding splitGenreParts_def
  using splitSep_sublist[of _ False "[]" n] trim_sublist
  by (auto intro: sublist_order.order_trans)

lemma part_tokens_imp_full_tokens:
  assumes "p \<in> set (splitGenreParts n)" "tokenSet p \<noteq> []"
  shows "tokenSet n \<noteq> []"
proof -
  have "sublist (toLowerCase p) (toLowerCase n)"
    unfolding toLowerCase_def using splitGenreParts_sublist[OF assms(1)] by (rule map_mono_sublist)
  with assms(2) show ?thesis
    unfolding tokenSet_nonempty_iff by (rule alnumRun3_mono)
qed

lemma matchStep_keys_mono:
  "fst ` set (matchedById st) \<subseteq> fst ` set (matchedById (matchStep cs st g))"
  by (auto simp: matchStep_def Let_def dom_update)

lemma matchLoop_keys_mono:
  "fst ` set (matchedById st) \<subseteq> fst ` set (matchedById (foldl (matchStep cs) st gs))"
proof (induction gs arbitrary: st)
  case Nil
  show ?case by simp
next
  case (Cons g gs)
  show ?case
    using matchStep_keys_mono[of st cs g] Cons[of "matchStep cs st g"] by auto
qed

lemma matchStep_key_added:
  assumes "tokenSet (gname g) \<noteq> []" "matchesAnyCategory (partTokenSets (gname g)) cs"
  shows "gid g \<in> fst ` set (matchedById (matchStep cs st g))"
  using assms by (simp add: matchStep_def Let_def dom_update)

lemma matchLoop_key_added:
  assumes "g \<in> set gs" "tokenSet (gname g) \<noteq> []"
    "matchesAnyCategory (partTokenSets (gname g)) cs"
  shows "gid g \<in> fst ` set (matchedById (foldl (matchStep cs) st gs))"
  using assms(1)
proof (induction gs arbitrary: st)
  case Nil
  then show ?case by simp
next
  case (Cons h gs)
  show ?case
  proof (cases "g = h")
    case True
    then show ?thesis
      using matchStep_key_added[OF assms(2,3), of st]
        matchLoop_keys_mono[of "matchStep cs st h" cs gs] by auto
  next
    case False
    with Cons show ?thesis by simp
  qed
qed

lemma matchStep_entries:
  assumes "\<forall>e\<in>set (matchedById st). gid (snd e) = fst e"
  shows "\<forall>e\<in>set (matchedById (matchStep cs st g)). gid (snd e) = fst e"
proof -
  have "\<forall>e\<in>set (AList.update (gid g) g al). gid (snd e) = fst e"
    if "\<forall>e\<in>set al. gid (snd e) = fst e" for al
    using that by (induction al) auto
  with assms show ?thesis by (simp add: matchStep_def Let_def)
qed

lemma matchLoop_entries:
  assumes "\<forall>e\<in>set (matchedById st). gid (snd e) = fst e"
  shows "\<forall>e\<in>set (matchedById (foldl (matchStep cs) st gs)). gid (snd e) = fst e"
  using assms
proof (induction gs arbitrary: st)
  case Nil
  then show ?case by simp
next
  case (Cons g gs)
  have "\<forall>e\<in>set (matchedById (matchStep cs st g)). gid (snd e) = fst e"
    using Cons.prems by (rule matchStep_entries)
  then show ?case
    using Cons.IH[of "matchStep cs st g"] by simp
qed

lemma rawMatched_ids:
  "gid ` set (rawMatched cats genres) =
     fst ` set (matchedById (matchLoop cats genres))"
proof -
  have "\<forall>e\<in>set (matchedById (matchLoop cats genres)). gid (snd e) = fst e"
    unfolding matchLoop_def by (rule matchLoop_entries) simp
  then show ?thesis
    by (force simp: rawMatched_def image_iff)
qed

lemma part_subset_matches:
  assumes "p \<in> set (splitGenreParts n)" "c \<in> set cats"
    "tokenSet p \<noteq> []" "set (tokenSet p) \<subseteq> set (tokenSet c)"
  shows "matchesAnyCategory (partTokenSets n) (categoryTokenSets cats)"
proof -
  from assms(3,4) have "tokenSet c \<noteq> []" by (cases "tokenSet p") auto
  with assms(2) have "tokenSet c \<in> set (categoryTokenSets cats)"
    by (simp add: categoryTokenSets_def)
  moreover from assms(1,3) have "tokenSet p \<in> set (partTokenSets n)"
    by (simp add: partTokenSets_def)
  ultimately show ?thesis
    using assms(4) unfolding matchesAnyCategory_def list_ex_iff isTokenSubset_iff by blast
qed

lemma tokenizeWords_min_length: "t \<in> set (tokenizeWords v) \<Longrightarrow> 3 \<le> length t"
  by (simp add: tokenizeWords_def)

lemma char_of_code: "char_of n = (ch::char) \<Longrightarrow> n mod 256 = of_char ch"
  by (metis of_char_of)

lemma lowerChar_letter:
  assumes "lowerChar c = CHR ''a'' \<or> lowerChar c = CHR ''n'' \<or> lowerChar c = CHR ''d''"
  shows "isWordChar c"
proof (cases "(65 \<le> code c \<and> code c \<le> 90) \<or> (192 \<le> code c \<and> code c \<le> 222 \<and> code c \<noteq> 215)")
  case False
  with assms have "c = CHR ''a'' \<or> c = CHR ''n'' \<or> c = CHR ''d''"
    by (simp add: lowerChar_def)
  then show ?thesis by (auto simp: isWordChar_def code_def)
next
  case True
  with assms have "char_of (code c + 32) = CHR ''a'' \<or> char_of (code c + 32) = CHR ''n'' \<or>
      char_of (code c + 32) = CHR ''d''"
    by (simp add: lowerChar_def)
  then have "(code c + 32) mod 256 = of_char (CHR ''a'') \<or>
      (code c + 32) mod 256 = of_char (CHR ''n'') \<or> (code c + 32) mod 256 = of_char (CHR ''d'')"
    using char_of_code by blast
  then have "(code c + 32) mod 256 \<in> {97, 110, 100}"
    by simp
  with True show ?thesis
    by (auto simp: isWordChar_def)
qed

lemma separator_not_word: "isPartSeparator c \<Longrightarrow> \<not> isWordChar c"
  by (auto simp: isPartSeparator_def isWordChar_def code_def)

lemma matchesAnd_iff:
  "matchesAnd s \<longleftrightarrow>
     (\<exists>x y z r. s = x # y # z # r \<and> lowerChar x = CHR ''a'' \<and> lowerChar y = CHR ''n'' \<and>
        lowerChar z = CHR ''d'' \<and> (r = [] \<or> \<not> isWordChar (hd r)))"
proof (cases s)
  case Nil
  then show ?thesis by (simp add: matchesAnd_def)
next
  case s1: (Cons x s1)
  show ?thesis
  proof (cases s1)
    case Nil
    with s1 show ?thesis by (simp add: matchesAnd_def)
  next
    case s2: (Cons y s2)
    show ?thesis
    proof (cases s2)
      case Nil
      with s1 s2 show ?thesis by (simp add: matchesAnd_def)
    next
      case (Cons z r)
      with s1 s2 show ?thesis by (cases r) (auto simp: matchesAnd_def)
    qed
  qed
qed


lemma matchesAnd_word: "matchesAnd (x # xs) \<Longrightarrow> isWordChar x \<and> 2 \<le> length xs"
  unfolding matchesAnd_iff using lowerChar_letter by auto

lemma matchesAnd_append_boundary:
  assumes "t = [] \<or> \<not> isWordChar (hd t)"
  shows "matchesAnd (s @ t) = matchesAnd s"
proof (cases s)
  case Nil
  with assms show ?thesis
    using matchesAnd_word[of "hd t" "tl t"] by (cases t) (auto simp: matchesAnd_def)
next
  case s1: (Cons x s1)
  show ?thesis
  proof (cases s1)
    case Nil
    with s1 assms show ?thesis
      using lowerChar_letter[of "hd t"] by (cases t) (auto simp: matchesAnd_iff)
  next
    case s2: (Cons y s2)
    show ?thesis
    proof (cases s2)
      case Nil
      with s1 s2 assms show ?thesis
        using lowerChar_letter[of "hd t"] by (cases t) (auto simp: matchesAnd_iff)
    next
      case (Cons z r)
      with s1 s2 assms show ?thesis
        by (cases r) (auto simp: matchesAnd_iff)
    qed
  qed
qed

lemma matchesAnd_after_nonword:
  assumes "s \<noteq> []" "\<not> isWordChar (last s)"
  shows "matchesAnd (s @ t) = matchesAnd s"
proof (cases s)
  case Nil
  with assms show ?thesis by simp
next
  case s1: (Cons x s1)
  show ?thesis
  proof (cases s1)
    case Nil
    with s1 assms show ?thesis
      using lowerChar_letter[of x] by (auto simp: matchesAnd_iff)
  next
    case s2: (Cons y s2)
    show ?thesis
    proof (cases s2)
      case Nil
      with s1 s2 assms show ?thesis
        using lowerChar_letter[of y] by (auto simp: matchesAnd_iff)
    next
      case s3: (Cons z r)
      show ?thesis
      proof (cases r)
        case Nil
        with s1 s2 s3 assms show ?thesis
          using lowerChar_letter[of z] by (auto simp: matchesAnd_iff)
      next
        case (Cons u r')
        with s1 s2 s3 show ?thesis by (auto simp: matchesAnd_iff)
      qed
    qed
  qed
qed

text \<open>A separator character ends the piece in front of it, whatever comes behind.\<close>

lemma splitSep_separator:
  assumes sep: "isPartSeparator c"
  shows "splitSep pw cur (a @ c # b) = splitSep pw cur a @ splitSep False [] b"
proof (induction pw cur a rule: splitSep.induct)
  case (1 prevWord cur)
  from sep show ?case by simp
next
  case (2 prevWord cur x xs)
  have m: "matchesAnd (x # xs @ c # b) = matchesAnd (x # xs)"
    using matchesAnd_append_boundary[of "c # b" "x # xs"] separator_not_word[OF sep] by simp
  show ?case
  proof (cases "isPartSeparator x")
    case True
    with 2 show ?thesis by simp
  next
    case False
    show ?thesis
    proof (cases "\<not> prevWord \<and> matchesAnd (x # xs)")
      case True
      then have "2 \<le> length xs" using matchesAnd_word[of x xs] by simp
      then have "drop 2 (xs @ c # b) = drop 2 xs @ c # b" by simp
      with 2(2)[OF False True] False True m show ?thesis by simp
    next
      case F: False
      with 2(3)[OF False F] False m show ?thesis by auto
    qed
  qed
qed

text \<open>The word \<open>and\<close>, in either case of its letters and between two word boundaries, ends
  the piece in front of it.\<close>

lemma splitSep_and:
  assumes w: "map lowerChar w = ''and''"
    and b: "b = [] \<or> \<not> isWordChar (hd b)"
  shows "(if a = [] then \<not> pw else \<not> isWordChar (last a)) \<Longrightarrow>
         splitSep pw cur (a @ w @ b) = splitSep pw cur a @ splitSep True [] b"
proof (induction pw cur a rule: splitSep.induct)
  case (1 prevWord cur)
  from w obtain w1 w2 w3 where ws: "w = [w1, w2, w3]"
    and l: "lowerChar w1 = CHR ''a''" "lowerChar w2 = CHR ''n''" "lowerChar w3 = CHR ''d''"
    by (auto simp: map_eq_Cons_conv)
  have "isWordChar w1" using l lowerChar_letter[of w1] by simp
  then have ns: "\<not> isPartSeparator w1" using separator_not_word by blast
  have "matchesAnd (w1 # w2 # w3 # b)"
    unfolding matchesAnd_iff using l b by auto
  with 1 ns ws show ?case by simp
next
  case (2 prevWord cur x xs)
  have lastnw: "\<not> isWordChar (last (x # xs))" using 2(4) by simp
  have m: "matchesAnd (x # xs @ w @ b) = matchesAnd (x # xs)"
    using matchesAnd_after_nonword[of "x # xs" "w @ b"] lastnw by simp
  show ?case
  proof (cases "isPartSeparator x")
    case True
    have "if xs = [] then \<not> False else \<not> isWordChar (last xs)"
      using lastnw by (cases "xs = []") simp_all
    with 2(1)[OF True] True show ?thesis by simp
  next
    case False
    show ?thesis
    proof (cases "\<not> prevWord \<and> matchesAnd (x # xs)")
      case True
      then obtain y z r where xs: "xs = y # z # r" and z: "isWordChar z"
        using lowerChar_letter by (auto simp: matchesAnd_iff)
      with lastnw have r: "r \<noteq> []" by auto
      then have "if drop 2 xs = [] then \<not> True else \<not> isWordChar (last (drop 2 xs))"
        using lastnw xs by simp
      from 2(2)[OF False True this] False True m xs show ?thesis by simp
    next
      case F: False
      have "if xs = [] then \<not> isWordChar x else \<not> isWordChar (last xs)"
        using lastnw by (cases "xs = []") simp_all
      from 2(3)[OF False F this] False F m show ?thesis by auto
    qed
  qed
qed

lemma splitSep_prevWord:
  assumes "b = [] \<or> \<not> isWordChar (hd b)"
  shows "splitSep True cur b = splitSep False cur b"
proof (cases b)
  case Nil
  then show ?thesis by simp
next
  case (Cons c cs)
  with assms have "\<not> matchesAnd (c # cs)" using matchesAnd_word[of c cs] by auto
  with Cons show ?thesis by simp
qed

text \<open>A string without a separator character and without the letters a, n, d in a row is
  one piece.\<close>

lemma splitSep_one_piece:
  "\<forall>c\<in>set s. \<not> isPartSeparator c \<Longrightarrow> \<not> sublist ''and'' (toLowerCase s) \<Longrightarrow>
   splitSep pw cur s = [cur @ s]"
proof (induction pw cur s rule: splitSep.induct)
  case (1 prevWord cur)
  show ?case by simp
next
  case (2 prevWord cur x xs)
  have nm: "\<not> matchesAnd (x # xs)"
  proof
    assume "matchesAnd (x # xs)"
    then obtain r where "toLowerCase (x # xs) = ''and'' @ toLowerCase r"
      by (auto simp: matchesAnd_iff toLowerCase_def)
    then have "sublist ''and'' (toLowerCase (x # xs))"
      by (metis sublist_appendI append_Nil)
    with 2(5) show False by simp
  qed
  have ns: "\<not> isPartSeparator x" using 2(4) by simp
  have "\<not> sublist ''and'' (toLowerCase xs)"
    using 2(5) by (auto simp: toLowerCase_def sublist_Cons_right)
  with 2(3)[OF ns] nm 2(4) have "splitSep (isWordChar x) (cur @ [x]) xs = [(cur @ [x]) @ xs]"
    by simp
  with ns nm show ?case by simp
qed

lemma splitSep_nonempty: "splitSep pw cur s \<noteq> []"
  by (induction pw cur s rule: splitSep.induct) auto

lemma splitGenreParts_separator:
  "isPartSeparator c \<Longrightarrow> splitGenreParts (a @ c # b) = splitGenreParts a @ splitGenreParts b"
  by (simp add: splitGenreParts_def splitSep_separator)

lemma splitGenreParts_and:
  assumes "map lowerChar w = ''and''" "a = [] \<or> \<not> isWordChar (last a)" "b = [] \<or> \<not> isWordChar (hd b)"
  shows "splitGenreParts (a @ w @ b) = splitGenreParts a @ splitGenreParts b"
proof -
  have "if a = [] then \<not> False else \<not> isWordChar (last a)" using assms(2) by auto
  from splitSep_and[OF assms(1,3) this, of "[]"] splitSep_prevWord[OF assms(3), of "[]"]
  show ?thesis by (simp add: splitGenreParts_def)
qed

lemma splitGenreParts_one_piece:
  "\<forall>c\<in>set s. \<not> isPartSeparator c \<Longrightarrow> \<not> sublist ''and'' (toLowerCase s) \<Longrightarrow>
   splitGenreParts s = (if trim s = [] then [] else [trim s])"
  by (simp add: splitGenreParts_def splitSep_one_piece)


text \<open>Names with the four separators; \<open>and\<close> inside a word or next to an underscore
  does not separate.\<close>

lemma splitGenreParts_examples:
  "splitGenreParts ''Health, Mind & Body'' = [''Health'', ''Mind'', ''Body'']"
  "splitGenreParts ''Action/Adventure'' = [''Action'', ''Adventure'']"
  "splitGenreParts ''Crime AND Mystery and Thriller'' = [''Crime'', ''Mystery'', ''Thriller'']"
  "splitGenreParts ''Islands'' = [''Islands'']"
  "splitGenreParts ''Band and_x and-y'' = [''Band and_x'', ''-y'']"
  "splitGenreParts '' , /and'' = []"
  by code_simp+

text \<open>
  Claim C2. If a part of the name of a genre \<open>G\<close> of the list has a token set that is
  not empty and is contained in the token set of one of the categories, then the raw match
  set has an entry under the id of \<open>G\<close>, and this entry is \<open>G\<close> itself when the
  ids of the list are pairwise different. The parts are the trimmed, non-empty pieces of
  the name: a name is cut at every \<open>/\<close>, \<open>,\<close> and \<open>&\<close> and at the word \<open>and\<close> in
  either case of its letters, when no word character stands next to it on either side; a
  name without these three characters and without the letters a, n, d in a row is one
  piece. Every token of a token set that the matcher compares has at least three
  characters. With no category or no genre the raw match set and the result are empty.
\<close>

theorem raw_match_rule:
  "(G \<in> set genres \<and> p \<in> set (splitGenreParts (gname G)) \<and> c \<in> set cats \<and>
    tokenSet p \<noteq> [] \<and> set (tokenSet p) \<subseteq> set (tokenSet c) \<longrightarrow>
      gid G \<in> gid ` set (rawMatched cats genres) \<and>
      (distinct (map gid genres) \<longrightarrow> G \<in> set (rawMatched cats genres))) \<and>
   (sep \<in> {CHR ''/'', CHR '','', CHR ''&''} \<longrightarrow>
      splitGenreParts (a @ sep # b) = splitGenreParts a @ splitGenreParts b) \<and>
   (toLowerCase w = ''and'' \<and> (a = [] \<or> \<not> isWordChar (last a)) \<and> (b = [] \<or> \<not> isWordChar (hd b)) \<longrightarrow>
      splitGenreParts (a @ w @ b) = splitGenreParts a @ splitGenreParts b) \<and>
   (set v \<inter> {CHR ''/'', CHR '','', CHR ''&''} = {} \<and> \<not> sublist ''and'' (toLowerCase v) \<longrightarrow>
      splitGenreParts v = (if trim v = [] then [] else [trim v])) \<and>
   (\<forall>s\<in>set (categoryTokenSets cats) \<union> set (partTokenSets n) \<union> {tokenSet n}.
      \<forall>t\<in>set s. 3 \<le> length t) \<and>
   rawMatched [] genres = [] \<and> rawMatched cats [] = [] \<and>
   matchGenresFromCategories [] genres = [] \<and> matchGenresFromCategories cats [] = []"
proof -
  have match: "gid G \<in> gid ` set (rawMatched cats genres) \<and>
      (distinct (map gid genres) \<longrightarrow> G \<in> set (rawMatched cats genres))"
    if G: "G \<in> set genres" and p: "p \<in> set (splitGenreParts (gname G))"
      and c: "c \<in> set cats" and ne: "tokenSet p \<noteq> []"
      and sub: "set (tokenSet p) \<subseteq> set (tokenSet c)"
  proof -
    have full: "tokenSet (gname G) \<noteq> []"
      using p ne by (rule part_tokens_imp_full_tokens)
    have m: "matchesAnyCategory (partTokenSets (gname G)) (categoryTokenSets cats)"
      using p c ne sub by (rule part_subset_matches)
    have "gid G \<in> gid ` set (rawMatched cats genres)"
      unfolding rawMatched_ids matchLoop_def using G full m by (rule matchLoop_key_added)
    moreover have "G \<in> set (rawMatched cats genres)" if "distinct (map gid genres)"
      using rawMatched_distinct[OF that, of cats] G full m by (simp add: genreMatches_def)
    ultimately show ?thesis by blast
  qed
  have separator: "splitGenreParts (a @ sep # b) = splitGenreParts a @ splitGenreParts b"
    if "sep \<in> {CHR ''/'', CHR '','', CHR ''&''}"
    using that by (intro splitGenreParts_separator) (auto simp: isPartSeparator_def)
  have word: "splitGenreParts (a @ w @ b) = splitGenreParts a @ splitGenreParts b"
    if "toLowerCase w = ''and''" "a = [] \<or> \<not> isWordChar (last a)" "b = [] \<or> \<not> isWordChar (hd b)"
    using that unfolding toLowerCase_def by (rule splitGenreParts_and)
  have piece: "splitGenreParts v = (if trim v = [] then [] else [trim v])"
    if "set v \<inter> {CHR ''/'', CHR '','', CHR ''&''} = {}" "\<not> sublist ''and'' (toLowerCase v)"
  proof (rule splitGenreParts_one_piece)
    show "\<forall>c\<in>set v. \<not> isPartSeparator c"
      using that(1) by (auto simp: isPartSeparator_def)
    show "\<not> sublist ''and'' (toLowerCase v)" by (rule that(2))
  qed
  have short: "\<forall>t\<in>set s. 3 \<le> length t"
    if "s \<in> set (categoryTokenSets cats) \<union> set (partTokenSets n) \<union> {tokenSet n}" for s
    using that tokenizeWords_min_length
    by (auto simp: categoryTokenSets_def partTokenSets_def tokenSet_def set_newSet)
  have empty: "rawMatched [] genres = []" "rawMatched cats [] = []"
    "matchGenresFromCategories [] genres = []" "matchGenresFromCategories cats [] = []"
    by (simp_all add: matchGenresFromCategories_def rawMatched_empty)
  from match have c1: "G \<in> set genres \<and> p \<in> set (splitGenreParts (gname G)) \<and> c \<in> set cats \<and>
      tokenSet p \<noteq> [] \<and> set (tokenSet p) \<subseteq> set (tokenSet c) \<longrightarrow>
        gid G \<in> gid ` set (rawMatched cats genres) \<and>
        (distinct (map gid genres) \<longrightarrow> G \<in> set (rawMatched cats genres))"
    by blast
  from separator have c2: "sep \<in> {CHR ''/'', CHR '','', CHR ''&''} \<longrightarrow>
      splitGenreParts (a @ sep # b) = splitGenreParts a @ splitGenreParts b"
    by (rule impI)
  from word have c3: "toLowerCase w = ''and'' \<and> (a = [] \<or> \<not> isWordChar (last a)) \<and>
      (b = [] \<or> \<not> isWordChar (hd b)) \<longrightarrow>
      splitGenreParts (a @ w @ b) = splitGenreParts a @ splitGenreParts b"
    by blast
  from piece have c4: "set v \<inter> {CHR ''/'', CHR '','', CHR ''&''} = {} \<and>
      \<not> sublist ''and'' (toLowerCase v) \<longrightarrow>
      splitGenreParts v = (if trim v = [] then [] else [trim v])"
    by blast
  from short have c5: "\<forall>s\<in>set (categoryTokenSets cats) \<union> set (partTokenSets n) \<union> {tokenSet n}.
      \<forall>t\<in>set s. 3 \<le> length t"
    by (rule ballI)
  show ?thesis
    by (intro conjI c1 c2 c3 c4 c5 empty)
qed

text \<open>The rule at the genre Mystery & Thriller and the category Thriller, and at the genre
  Mind and Body and the category Human body: in both the category has the tokens of one
  part of the name only. And a name whose token set leaves out a short word.\<close>

theorem raw_match_rule_witness:
  "splitGenreParts ''Mystery & Thriller'' = [''Mystery'', ''Thriller''] \<and>
   \<lparr>gid = 3, gname = ''Mystery & Thriller''\<rparr> \<in> set (rawMatched [''Thriller'']
      [\<lparr>gid = 1, gname = ''Romance''\<rparr>, \<lparr>gid = 3, gname = ''Mystery & Thriller''\<rparr>]) \<and>
   splitGenreParts ''Mind and Body'' = [''Mind'', ''Body''] \<and>
   \<lparr>gid = 4, gname = ''Mind and Body''\<rparr> \<in> set (rawMatched [''Human body'']
      [\<lparr>gid = 4, gname = ''Mind and Body''\<rparr>]) \<and>
   ''fi'' \<notin> set (tokenSet ''Sci-Fi & Fantasy'')"
proof -
  let ?G = "\<lparr>gid = 3, gname = ''Mystery & Thriller''\<rparr>"
  let ?gs = "[\<lparr>gid = 1, gname = ''Romance''\<rparr>, ?G]"
  let ?H = "\<lparr>gid = 4, gname = ''Mind and Body''\<rparr>"
  have s1: "CHR ''&'' \<in> {CHR ''/'', CHR '','', CHR ''&''}" by simp
  have p1: "set ''Mystery '' \<inter> {CHR ''/'', CHR '','', CHR ''&''} = {} \<and>
      \<not> sublist ''and'' (toLowerCase ''Mystery '')" by code_simp
  have p2: "set '' Thriller'' \<inter> {CHR ''/'', CHR '','', CHR ''&''} = {} \<and>
      \<not> sublist ''and'' (toLowerCase '' Thriller'')" by code_simp
  have p3: "set ''Mind '' \<inter> {CHR ''/'', CHR '','', CHR ''&''} = {} \<and>
      \<not> sublist ''and'' (toLowerCase ''Mind '')" by code_simp
  have p4: "set '' Body'' \<inter> {CHR ''/'', CHR '','', CHR ''&''} = {} \<and>
      \<not> sublist ''and'' (toLowerCase '' Body'')" by code_simp
  have t: "trim ''Mystery '' = ''Mystery''" "trim '' Thriller'' = ''Thriller''"
    "trim ''Mind '' = ''Mind''" "trim '' Body'' = ''Body''"
    by code_simp+
  have w1: "toLowerCase ''and'' = ''and'' \<and> (''Mind '' = [] \<or> \<not> isWordChar (last ''Mind '')) \<and>
      ('' Body'' = [] \<or> \<not> isWordChar (hd '' Body''))" by code_simp
  have a1: "splitGenreParts (''Mystery '' @ CHR ''&'' # '' Thriller'') =
      splitGenreParts ''Mystery '' @ splitGenreParts '' Thriller''"
    using raw_match_rule[where sep = "CHR ''&''" and a = "''Mystery ''" and b = "'' Thriller''",
        THEN conjunct2, THEN conjunct1] s1
    by (rule mp)
  have a2: "splitGenreParts ''Mystery '' = (if trim ''Mystery '' = [] then [] else [trim ''Mystery ''])"
    using raw_match_rule[where v = "''Mystery ''",
        THEN conjunct2, THEN conjunct2, THEN conjunct2, THEN conjunct1] p1
    by (rule mp)
  have a3: "splitGenreParts '' Thriller'' = (if trim '' Thriller'' = [] then [] else [trim '' Thriller''])"
    using raw_match_rule[where v = "'' Thriller''",
        THEN conjunct2, THEN conjunct2, THEN conjunct2, THEN conjunct1] p2
    by (rule mp)
  have a4: "splitGenreParts (''Mind '' @ ''and'' @ '' Body'') =
      splitGenreParts ''Mind '' @ splitGenreParts '' Body''"
    using raw_match_rule[where w = "''and''" and a = "''Mind ''" and b = "'' Body''",
        THEN conjunct2, THEN conjunct2, THEN conjunct1] w1
    by (rule mp)
  have a5: "splitGenreParts ''Mind '' = (if trim ''Mind '' = [] then [] else [trim ''Mind ''])"
    using raw_match_rule[where v = "''Mind ''",
        THEN conjunct2, THEN conjunct2, THEN conjunct2, THEN conjunct1] p3
    by (rule mp)
  have a6: "splitGenreParts '' Body'' = (if trim '' Body'' = [] then [] else [trim '' Body''])"
    using raw_match_rule[where v = "'' Body''",
        THEN conjunct2, THEN conjunct2, THEN conjunct2, THEN conjunct1] p4
    by (rule mp)
  have sp: "splitGenreParts ''Mystery & Thriller'' = [''Mystery'', ''Thriller'']"
    using a1 by (simp add: a2 a3 t)
  have sq: "splitGenreParts ''Mind and Body'' = [''Mind'', ''Body'']"
    using a4 by (simp add: a5 a6 t)
  have h1: "?G \<in> set ?gs" by simp
  have h2: "''Thriller'' \<in> set (splitGenreParts (gname ?G))" by (simp add: sp)
  have h3: "''Thriller'' \<in> set [''Thriller'']" by simp
  have h4: "tokenSet ''Thriller'' \<noteq> []" by code_simp
  have h5: "set (tokenSet ''Thriller'') \<subseteq> set (tokenSet ''Thriller'')" by simp
  have h6: "distinct (map gid ?gs)" by simp
  have m1: "?G \<in> set (rawMatched [''Thriller''] ?gs)"
    using raw_match_rule[where G = ?G and genres = ?gs and p = "''Thriller''" and c = "''Thriller''"
        and cats = "[''Thriller'']", THEN conjunct1] h1 h2 h3 h4 h5 h6
    by blast
  have k1: "?H \<in> set [?H]" by simp
  have k2: "''Body'' \<in> set (splitGenreParts (gname ?H))" by (simp add: sq)
  have k3: "''Human body'' \<in> set [''Human body'']" by simp
  have k4: "tokenSet ''Body'' \<noteq> []" by code_simp
  have k5: "set (tokenSet ''Body'') \<subseteq> set (tokenSet ''Human body'')" by code_simp
  have k6: "distinct (map gid [?H])" by simp
  have m2: "?H \<in> set (rawMatched [''Human body''] [?H])"
    using raw_match_rule[where G = ?H and genres = "[?H]" and p = "''Body''" and c = "''Human body''"
        and cats = "[''Human body'']", THEN conjunct1] k1 k2 k3 k4 k5 k6
    by blast
  have "\<forall>s\<in>set (categoryTokenSets []) \<union> set (partTokenSets ''Sci-Fi & Fantasy'') \<union>
        {tokenSet ''Sci-Fi & Fantasy''}. \<forall>t\<in>set s. 3 \<le> length t"
    by (rule raw_match_rule[where cats = "[]" and n = "''Sci-Fi & Fantasy''",
          THEN conjunct2, THEN conjunct2, THEN conjunct2, THEN conjunct2, THEN conjunct1])
  then have "\<forall>t\<in>set (tokenSet ''Sci-Fi & Fantasy''). 3 \<le> length t"
    by blast
  then have fi: "''fi'' \<notin> set (tokenSet ''Sci-Fi & Fantasy'')"
    by fastforce
  from sp m1 sq m2 fi show ?thesis by blast
qed

section \<open>The aggregator: merge on collision\<close>

lemma set_foldl_setAdd: "set (foldl (\<lambda>s i. setAdd i s) s0 xs) = set s0 \<union> set xs"
  by (induction xs arbitrary: s0) (auto simp: setAdd_def)

lemma key_cong:
  "title c' = title c \<Longrightarrow> authors c' = authors c \<Longrightarrow> googleBooksId c' = googleBooksId c \<Longrightarrow>
   normalizedCandidateKey c' = normalizedCandidateKey c"
  by (simp add: normalizedCandidateKey_def Let_def)

lemma addSourceGenre_fields [simp]:
  "averageRating (addSourceGenre c i n) = averageRating c"
  "description (addSourceGenre c i n) = description c"
  "googleBooksId (addSourceGenre c i n) = googleBooksId c"
  "title (addSourceGenre c i n) = title c"
  "authors (addSourceGenre c i n) = authors c"
  "descriptiveFields (addSourceGenre c i n) = descriptiveFields c"
  by (simp_all add: addSourceGenre_def Let_def descriptiveFields_def)

lemma addSourceGenre_key [simp]:
  "normalizedCandidateKey (addSourceGenre c i n) = normalizedCandidateKey c"
  by (rule key_cong) simp_all

lemma addSourceGenre_ids:
  "set (sourceGenreIds (addSourceGenre c i n)) = set (sourceGenreIds c) \<union> (if i = 0 then {} else {i})"
  by (auto simp: addSourceGenre_def Let_def setAdd_def set_newSet)

lemma reset_fields [simp]:
  "descriptiveFields (c\<lparr>sourceGenreIds := [], sourceGenreNames := []\<rparr>) = descriptiveFields c"
  by (simp add: descriptiveFields_def)

lemma reset_key [simp]:
  "normalizedCandidateKey (c\<lparr>sourceGenreIds := x, sourceGenreNames := y\<rparr>) = normalizedCandidateKey c"
  by (rule key_cong) simp_all

lemma shouldReplace_cong:
  "averageRating e' = averageRating e \<Longrightarrow> description e' = description e \<Longrightarrow>
   averageRating c' = averageRating c \<Longrightarrow> description c' = description c \<Longrightarrow>
   shouldReplace e' c' = shouldReplace e c"
  by (simp add: shouldReplace_def)

lemma mergeOnCollision_fields:
  "descriptiveFields (mergeOnCollision g e c) =
     (if shouldReplace e c then descriptiveFields c else descriptiveFields e)"
  "set (sourceGenreIds (mergeOnCollision g e c)) =
     set (sourceGenreIds e) \<union> (if gid g = 0 then {} else {gid g}) \<union>
     (if shouldReplace e c then set (sourceGenreIds c) else {})"
  "averageRating (mergeOnCollision g e c) =
     (if shouldReplace e c then averageRating c else averageRating e)"
  "description (mergeOnCollision g e c) =
     (if shouldReplace e c then description c else description e)"
  "normalizedCandidateKey (mergeOnCollision g e c) =
     (if shouldReplace e c then normalizedCandidateKey c else normalizedCandidateKey e)"
proof -
  have sr: "shouldReplace (addSourceGenre e (gid g) (gname g)) c = shouldReplace e c"
    by (rule shouldReplace_cong) simp_all
  show "descriptiveFields (mergeOnCollision g e c) =
     (if shouldReplace e c then descriptiveFields c else descriptiveFields e)"
    by (simp add: mergeOnCollision_def Let_def sr) (simp add: descriptiveFields_def)
  show "set (sourceGenreIds (mergeOnCollision g e c)) =
     set (sourceGenreIds e) \<union> (if gid g = 0 then {} else {gid g}) \<union>
     (if shouldReplace e c then set (sourceGenreIds c) else {})"
    by (simp add: mergeOnCollision_def Let_def sr set_foldl_setAdd set_newSet addSourceGenre_ids)
  show "averageRating (mergeOnCollision g e c) =
     (if shouldReplace e c then averageRating c else averageRating e)"
    by (simp add: mergeOnCollision_def Let_def sr)
  show "description (mergeOnCollision g e c) =
     (if shouldReplace e c then description c else description e)"
    by (simp add: mergeOnCollision_def Let_def sr)
  show "normalizedCandidateKey (mergeOnCollision g e c) =
     (if shouldReplace e c then normalizedCandidateKey c else normalizedCandidateKey e)"
    by (simp add: mergeOnCollision_def Let_def sr)
qed


lemma addRawBook_new:
  assumes "googleBooksId book \<noteq> []" "googleBooksId book \<notin> set excl"
  shows "addRawBook excl g [] book =
    [(normalizedCandidateKey book,
      addSourceGenre (book\<lparr>sourceGenreIds := [], sourceGenreNames := []\<rparr>) (gid g) (gname g))]"
  using assms by (simp add: addRawBook_def Let_def)

lemma addRawBook_collision:
  assumes "googleBooksId book \<noteq> []" "googleBooksId book \<notin> set excl"
    "normalizedCandidateKey book = k"
  shows "addRawBook excl g [(k, e)] book =
    [(k, mergeOnCollision g e
           (addSourceGenre (book\<lparr>sourceGenreIds := [], sourceGenreNames := []\<rparr>) (gid g) (gname g)))]"
  using assms by (simp add: addRawBook_def Let_def)

lemma shouldReplace_prepared [simp]:
  "shouldReplace (addSourceGenre (a\<lparr>sourceGenreIds := [], sourceGenreNames := []\<rparr>) i n)
     (addSourceGenre (b\<lparr>sourceGenreIds := [], sourceGenreNames := []\<rparr>) j m) = shouldReplace a b"
  by (rule shouldReplace_cong) simp_all

text \<open>When every fetch succeeds, the loop of the route computes \<open>aggregateRaw\<close> of the
  fetched lists.\<close>

lemma aggregateLoop_fold:
  assumes "\<forall>ug\<in>set ugs. fetchBooksFromGoogle (google (''subject:'' @ gname (ugGenre ug))) = Inr (raw ug)"
  shows "fst (aggregateLoop google excl ugs cm tr) =
     Inr (foldl (\<lambda>m f. foldl (addRawBook excl (fst f)) m (snd f)) cm
            (map (\<lambda>ug. (ugGenre ug, raw ug)) ugs))"
  using assms by (induction ugs arbitrary: cm tr) (simp_all add: Let_def)

lemma aggregateLoop_aggregateRaw:
  assumes "\<forall>ug\<in>set ugs. fetchBooksFromGoogle (google (''subject:'' @ gname (ugGenre ug))) = Inr (raw ug)"
  shows "fst (aggregateLoop google excl ugs [] []) =
     Inr (aggregateRaw excl (map (\<lambda>ug. (ugGenre ug, raw ug)) ugs))"
  unfolding aggregateRaw_def using assms by (rule aggregateLoop_fold)

text \<open>
  Claim C3, as amended. Two raw candidates with external ids that are not excluded share a
  canonical key. Each of the two input orders leaves one record. Its source genre ids are
  the ids of the two queries (0 apart) in both orders. Its descriptive fields are those of
  the incoming candidate when that one has the higher rating, or the same rating and the
  longer description, and those of the first candidate otherwise; so the two orders keep
  the same descriptive fields whenever the ratings or the description lengths differ.
  Merging the same two candidates once more, in the same order, changes neither the
  descriptive fields nor the set of source genre ids.
\<close>

theorem merge_on_collision:
  assumes ida: "googleBooksId a \<noteq> []" "googleBooksId a \<notin> set excl"
    and idb: "googleBooksId b \<noteq> []" "googleBooksId b \<notin> set excl"
    and key: "normalizedCandidateKey a = normalizedCandidateKey b"
  shows "\<exists>x y x2 y2.
    map snd (aggregateRaw excl [(ga, [a]), (gb, [b])]) = [x] \<and>
    map snd (aggregateRaw excl [(gb, [b]), (ga, [a])]) = [y] \<and>
    map snd (aggregateRaw excl [(ga, [a]), (gb, [b]), (ga, [a]), (gb, [b])]) = [x2] \<and>
    map snd (aggregateRaw excl [(gb, [b]), (ga, [a]), (gb, [b]), (ga, [a])]) = [y2] \<and>
    set (sourceGenreIds x) = {gid ga, gid gb} - {0} \<and>
    set (sourceGenreIds y) = {gid ga, gid gb} - {0} \<and>
    descriptiveFields x = (if shouldReplace a b then descriptiveFields b else descriptiveFields a) \<and>
    descriptiveFields y = (if shouldReplace b a then descriptiveFields a else descriptiveFields b) \<and>
    (averageRating a \<noteq> averageRating b \<or> length (description a) \<noteq> length (description b) \<longrightarrow>
       descriptiveFields x = descriptiveFields y) \<and>
    descriptiveFields x2 = descriptiveFields x \<and> set (sourceGenreIds x2) = set (sourceGenreIds x) \<and>
    descriptiveFields y2 = descriptiveFields y \<and> set (sourceGenreIds y2) = set (sourceGenreIds y)"
proof -
  define ca where "ca = addSourceGenre (a\<lparr>sourceGenreIds := [], sourceGenreNames := []\<rparr>) (gid ga) (gname ga)"
  define cb where "cb = addSourceGenre (b\<lparr>sourceGenreIds := [], sourceGenreNames := []\<rparr>) (gid gb) (gname gb)"
  define k where "k = normalizedCandidateKey a"
  define x where "x = mergeOnCollision gb ca cb"
  define y where "y = mergeOnCollision ga cb ca"
  define x2 where "x2 = mergeOnCollision gb (mergeOnCollision ga x ca) cb"
  define y2 where "y2 = mergeOnCollision ga (mergeOnCollision gb y cb) ca"
  have kb: "normalizedCandidateKey b = k" using key by (simp add: k_def)
  have ka: "normalizedCandidateKey a = k" by (simp add: k_def)
  have sa: "addRawBook excl ga [] a = [(k, ca)]"
    using addRawBook_new[OF ida, of ga] by (simp add: ca_def k_def)
  have sb: "addRawBook excl gb [] b = [(k, cb)]"
    using addRawBook_new[OF idb, of gb] by (simp add: cb_def kb)
  have ma: "addRawBook excl ga [(k, e)] a = [(k, mergeOnCollision ga e ca)]" for e
    using addRawBook_collision[OF ida ka, of ga e] by (simp add: ca_def)
  have mb: "addRawBook excl gb [(k, e)] b = [(k, mergeOnCollision gb e cb)]" for e
    using addRawBook_collision[OF idb kb, of gb e] by (simp add: cb_def)
  have r1: "map snd (aggregateRaw excl [(ga, [a]), (gb, [b])]) = [x]"
    by (simp add: aggregateRaw_def sa mb x_def)
  have r2: "map snd (aggregateRaw excl [(gb, [b]), (ga, [a])]) = [y]"
    by (simp add: aggregateRaw_def sb ma y_def)
  have r3: "map snd (aggregateRaw excl [(ga, [a]), (gb, [b]), (ga, [a]), (gb, [b])]) = [x2]"
    by (simp add: aggregateRaw_def sa mb ma x_def x2_def)
  have r4: "map snd (aggregateRaw excl [(gb, [b]), (ga, [a]), (gb, [b]), (ga, [a])]) = [y2]"
    by (simp add: aggregateRaw_def sb ma mb y_def y2_def)
  have ida': "set (sourceGenreIds ca) = {gid ga} - {0}" "set (sourceGenreIds cb) = {gid gb} - {0}"
    by (auto simp: ca_def cb_def addSourceGenre_ids)
  have sr: "shouldReplace ca cb = shouldReplace a b" "shouldReplace cb ca = shouldReplace b a"
    by (simp_all add: ca_def cb_def)
  have df: "descriptiveFields ca = descriptiveFields a" "descriptiveFields cb = descriptiveFields b"
    by (simp_all add: ca_def cb_def)
  have ra: "averageRating ca = averageRating a" "description ca = description a"
    and rb: "averageRating cb = averageRating b" "description cb = description b"
    by (simp_all add: ca_def cb_def)
  have x_ids: "set (sourceGenreIds x) = {gid ga, gid gb} - {0}"
    unfolding x_def mergeOnCollision_fields ida' by auto
  have y_ids: "set (sourceGenreIds y) = {gid ga, gid gb} - {0}"
    unfolding y_def mergeOnCollision_fields ida' by auto
  have x_df: "descriptiveFields x = (if shouldReplace a b then descriptiveFields b else descriptiveFields a)"
    by (simp add: x_def mergeOnCollision_fields sr df)
  have y_df: "descriptiveFields y = (if shouldReplace b a then descriptiveFields a else descriptiveFields b)"
    by (simp add: y_def mergeOnCollision_fields sr df)
  have order: "descriptiveFields x = descriptiveFields y"
    if "averageRating a \<noteq> averageRating b \<or> length (description a) \<noteq> length (description b)"
    using that unfolding x_df y_df by (auto simp: shouldReplace_def)
  have x_rank: "averageRating x = (if shouldReplace a b then averageRating b else averageRating a)"
      "description x = (if shouldReplace a b then description b else description a)"
    by (simp_all add: x_def mergeOnCollision_fields sr ra rb)
  have y_rank: "averageRating y = (if shouldReplace b a then averageRating a else averageRating b)"
      "description y = (if shouldReplace b a then description a else description b)"
    by (simp_all add: y_def mergeOnCollision_fields sr ra rb)
  have nx: "\<not> shouldReplace x ca" "\<not> shouldReplace x cb"
    by (auto simp: shouldReplace_def x_rank ra rb)
  have ny: "\<not> shouldReplace y ca" "\<not> shouldReplace y cb"
    by (auto simp: shouldReplace_def y_rank ra rb)
  define x1 where "x1 = mergeOnCollision ga x ca"
  define y1 where "y1 = mergeOnCollision gb y cb"
  have x1: "descriptiveFields x1 = descriptiveFields x" "averageRating x1 = averageRating x"
      "description x1 = description x" "set (sourceGenreIds x1) = set (sourceGenreIds x)"
    using nx x_ids by (auto simp: x1_def mergeOnCollision_fields)
  have y1: "descriptiveFields y1 = descriptiveFields y" "averageRating y1 = averageRating y"
      "description y1 = description y" "set (sourceGenreIds y1) = set (sourceGenreIds y)"
    using ny y_ids by (auto simp: y1_def mergeOnCollision_fields)
  have nx1: "\<not> shouldReplace x1 cb"
    using nx(2) by (simp add: shouldReplace_def x1)
  have ny1: "\<not> shouldReplace y1 ca"
    using ny(1) by (simp add: shouldReplace_def y1)
  have x2: "descriptiveFields x2 = descriptiveFields x" "set (sourceGenreIds x2) = set (sourceGenreIds x)"
    using nx1 x1 x_ids unfolding x2_def x1_def[symmetric] by (auto simp: mergeOnCollision_fields)
  have y2: "descriptiveFields y2 = descriptiveFields y" "set (sourceGenreIds y2) = set (sourceGenreIds y)"
    using ny1 y1 y_ids unfolding y2_def y1_def[symmetric] by (auto simp: mergeOnCollision_fields)
  have imp: "averageRating a \<noteq> averageRating b \<or> length (description a) \<noteq> length (description b) \<longrightarrow>
       descriptiveFields x = descriptiveFields y"
    using order by blast
  show ?thesis
    by (rule exI[of _ x], rule exI[of _ y], rule exI[of _ x2], rule exI[of _ y2])
       (intro conjI r1 r2 r3 r4 x_ids y_ids x_df y_df imp x2 y2)
qed

lemma example_keys:
  "normalizedCandidateKey scenarioCandidate = ''dune|frank herbert''"
  "normalizedCandidateKey lowerRatedCandidate = ''dune|frank herbert''"
  "normalizedCandidateKey tiedCandidate = ''dune|frank herbert''"
  by (code_simp)+

text \<open>Scenario C: the first candidate has rating 3.5, the second 4.0; the merged record has
  the fields of the second and both source genres.\<close>

theorem merge_on_collision_witness:
  "\<exists>x. map snd (aggregateRaw [] [(genreA, [lowerRatedCandidate]), (genreB, [scenarioCandidate])]) = [x] \<and>
       set (sourceGenreIds x) = {1, 2} \<and>
       descriptiveFields x = descriptiveFields scenarioCandidate"
proof -
  have h1: "googleBooksId lowerRatedCandidate \<noteq> []" "googleBooksId lowerRatedCandidate \<notin> set []"
    by (simp_all add: lowerRatedCandidate_def)
  have h2: "googleBooksId scenarioCandidate \<noteq> []" "googleBooksId scenarioCandidate \<notin> set []"
    by (simp_all add: scenarioCandidate_def)
  have h3: "normalizedCandidateKey lowerRatedCandidate = normalizedCandidateKey scenarioCandidate"
    by (simp add: example_keys)
  have sr: "shouldReplace lowerRatedCandidate scenarioCandidate"
    by (simp add: shouldReplace_def lowerRatedCandidate_def scenarioCandidate_def)
  have g: "{gid genreA, gid genreB} - {0} = {1, 2}"
    by (simp add: genreA_def genreB_def)
  from merge_on_collision[OF h1 h2 h3, of genreA genreB] sr g
  show ?thesis by auto
qed

text \<open>
  Claim C3 as stated fails when rating and description length are both equal: the record
  processed first is kept, so the two input orders keep different covers.
\<close>

theorem merge_order_counterexample:
  "normalizedCandidateKey scenarioCandidate = normalizedCandidateKey tiedCandidate \<and>
   averageRating scenarioCandidate = averageRating tiedCandidate \<and>
   length (description scenarioCandidate) = length (description tiedCandidate) \<and>
   map (coverUrl \<circ> snd) (aggregateRaw [] [(genreA, [scenarioCandidate]), (genreB, [tiedCandidate])])
     = [''https://covers.openlibrary.org/b/id/1-L.jpg''] \<and>
   map (coverUrl \<circ> snd) (aggregateRaw [] [(genreB, [tiedCandidate]), (genreA, [scenarioCandidate])])
     = [''https://covers.openlibrary.org/b/id/3-L.jpg'']"
  by code_simp

section \<open>The scorer\<close>

lemma newMap_values_gen:
  "map_of (foldl (\<lambda>m e. AList.update (fst e) (snd e) m) m0 es) k = Some v \<Longrightarrow>
     v \<in> snd ` set es \<or> map_of m0 k = Some v"
proof (induction es arbitrary: m0)
  case Nil
  then show ?case by simp
next
  case (Cons e es)
  from Cons.prems
  have "map_of (foldl (\<lambda>m e. AList.update (fst e) (snd e) m)
          (AList.update (fst e) (snd e) m0) es) k = Some v"
    by simp
  from Cons.IH[OF this] show ?case
    by (auto simp: update_conv' split: if_splits)
qed

lemma newMap_values: "map_of (newMap es) k = Some v \<Longrightarrow> v \<in> snd ` set es"
  unfolding newMap_def using newMap_values_gen[of "[]" es k v] by simp

lemma existing_distinct:
  "map_of (existingGenreIdsByGoogleId rows) k = Some v \<Longrightarrow> distinct v"
  unfolding existingGenreIdsByGoogleId_def
  by (drule newMap_values) (auto simp: distinct_newSet)

lemma countIntersection_card:
  "distinct a \<Longrightarrow> countIntersection a b = card (set a \<inter> set b)"
proof -
  assume d: "distinct a"
  then have "distinct (filter (\<lambda>x. x \<in> set b) a)" by simp
  then have "length (filter (\<lambda>x. x \<in> set b) a) = card (set (filter (\<lambda>x. x \<in> set b) a))"
    by (metis distinct_card)
  also have "set (filter (\<lambda>x. x \<in> set b) a) = set a \<inter> set b" by auto
  finally show ?thesis by (simp add: countIntersection_def)
qed

lemma countIntersection_le: "countIntersection a b \<le> length a"
  by (simp add: countIntersection_def)

lemma scored_genreIds_distinct:
  "distinct (genreIds (scoreCandidate (existingGenreIdsByGoogleId rows) allGenres preferred fts tts w c))"
  by (auto simp: scoreCandidate_def Let_def distinct_newSet split: option.splits
           dest: existing_distinct)

text \<open>
  Claim C4. For every candidate that the route scores: the genre score is 0 exactly when
  the effective genre set is empty; otherwise it is 0.6 + 0.4 times the overlap ratio; the
  overlap ratio is the number of effective genres that are preferred divided by the number
  of effective genres (0 for the empty set) and lies between 0 and 1; so the genre score is
  0 or lies between 0.6 and 1.
\<close>

theorem genreScore_range:
  assumes sc_def: "sc = scoreCandidate (existingGenreIdsByGoogleId rows) allGenres preferred fts tts w c"
  shows "(genreScore sc = 0 \<longleftrightarrow> genreIds sc = []) \<and>
         (genreIds sc \<noteq> [] \<longrightarrow> genreScore sc = 0.6 + 0.4 * genreOverlapRatio sc) \<and>
         genreOverlapRatio sc =
           (if genreIds sc = [] then 0
            else of_nat (card (set (genreIds sc) \<inter> set preferred)) / of_nat (card (set (genreIds sc)))) \<and>
         0 \<le> genreOverlapRatio sc \<and> genreOverlapRatio sc \<le> 1 \<and>
         (genreScore sc = 0 \<or> (0.6 \<le> genreScore sc \<and> genreScore sc \<le> 1))"
proof -
  let ?eff = "genreIds sc"
  have d: "distinct ?eff"
    unfolding sc_def by (rule scored_genreIds_distinct)
  have ratio: "genreOverlapRatio sc =
      (if ?eff = [] then 0 else of_nat (countIntersection ?eff preferred) / of_nat (length ?eff))"
    unfolding sc_def by (simp add: scoreCandidate_def Let_def)
  have gs: "genreScore sc = (if ?eff = [] then 0 else 0.6 + 0.4 * genreOverlapRatio sc)"
    unfolding sc_def by (simp add: scoreCandidate_def Let_def)
  have r0: "0 \<le> genreOverlapRatio sc"
    unfolding ratio by simp
  have r1: "genreOverlapRatio sc \<le> 1"
    unfolding ratio using countIntersection_le[of ?eff preferred]
    by (simp add: divide_le_eq_1)
  have card: "genreOverlapRatio sc =
      (if ?eff = [] then 0
       else of_nat (card (set ?eff \<inter> set preferred)) / of_nat (card (set ?eff)))"
    unfolding ratio using d by (simp add: countIntersection_card distinct_card)
  have pos: "genreScore sc \<noteq> 0" "0.6 \<le> genreScore sc" "genreScore sc \<le> 1" if "?eff \<noteq> []"
    using that r0 r1 by (simp_all add: gs)
  show ?thesis
    using gs card r0 r1 pos by auto
qed

text \<open>The scored candidate of Scenario B: one source genre, which is preferred.\<close>

theorem genreScore_range_witness:
  "genreIds (scoreCandidate (existingGenreIdsByGoogleId []) [] [7] []
      [tokenize ''Dune Messiah Frank Herbert desert planet sequel novel trilogy arrakis'']
      (weights []) scenarioCandidate) = [7] \<and>
   genreScore (scoreCandidate (existingGenreIdsByGoogleId []) [] [7] []
      [tokenize ''Dune Messiah Frank Herbert desert planet sequel novel trilogy arrakis'']
      (weights []) scenarioCandidate) = 1"
proof -
  let ?sc = "scoreCandidate (existingGenreIdsByGoogleId []) [] [7] []
      [tokenize ''Dune Messiah Frank Herbert desert planet sequel novel trilogy arrakis'']
      (weights []) scenarioCandidate"
  have ids: "genreIds ?sc = [7]"
    by (simp add: scoreCandidate_def Let_def scenarioCandidate_def existingGenreIdsByGoogleId_def
          newMap_def deriveGenreIdsFromCategories_def newSet_def)
  from genreScore_range[OF refl, of "[]" "[]" "[7]" "[]"
      "[tokenize ''Dune Messiah Frank Herbert desert planet sequel novel trilogy arrakis'']" "weights []"
      scenarioCandidate] ids
  show ?thesis by simp
qed

text \<open>The weights as binary64 numbers, and their sums: exact, and added on the platform in
  the order genre, finished, to-read.\<close>

lemma double_weight_values:
  "double 0.35 = 6305039478318694 / 2 ^ 54"
  "double 0.40 = 7205759403792794 / 2 ^ 54"
  "double 0.25 = 1 / 4"
  "double 0.70 = 6305039478318694 / 2 ^ 53"
  "double 0.20 = 7205759403792794 / 2 ^ 55"
  "double 0.10 = 7205759403792794 / 2 ^ 56"
  by code_simp+

lemma double_weights_finished:
  "double 0.35 + double 0.40 + double 0.25 = 1"
  "dadd (dadd (double 0.35) (double 0.40)) (double 0.25) = 1"
  by code_simp+

lemma double_weights_no_finished:
  "double 0.70 + double 0.20 + double 0.10 = 1 - 1 / 2 ^ 55"
  "dadd (dadd (double 0.70) (double 0.20)) (double 0.10) = 1 - 1 / 2 ^ 53"
  by code_simp+

text \<open>
  Claim C5. With an empty finished shelf the three weights do not add up to 1: they are
  the binary64 numbers of 0.70, 0.20 and 0.10, which add up to \<open>1 - 2 ^ -55\<close>, and to
  \<open>1 - 2 ^ -53\<close> when the platform adds them.
\<close>

theorem weights_sum_counterexample:
  "genreW (weights []) + finishedW (weights []) + toReadW (weights []) \<noteq> 1 \<and>
   dadd (dadd (genreW (weights [])) (finishedW (weights []))) (toReadW (weights [])) \<noteq> 1"
  using double_weights_no_finished by (simp add: weights_def)

text \<open>
  Claim C5, amended. The weights are the binary64 numbers of 0.70, 0.20, 0.10 with a
  finished shelf that is empty and of 0.35, 0.40, 0.25 with one that is not. With a
  finished shelf that is not empty they add up to exactly 1, also when the platform adds
  them. With an empty finished shelf they add up to \<open>1 - 2 ^ -55\<close>, and to
  \<open>1 - 2 ^ -53\<close>, which prints as 0.9999999999999999, when the platform adds them.
\<close>

theorem weights_sum:
  "weights finishedLite =
     (if finishedLite = []
      then \<lparr>genreW = double 0.70, finishedW = double 0.20, toReadW = double 0.10\<rparr>
      else \<lparr>genreW = double 0.35, finishedW = double 0.40, toReadW = double 0.25\<rparr>) \<and>
   (finishedLite \<noteq> [] \<longrightarrow>
      genreW (weights finishedLite) + finishedW (weights finishedLite) + toReadW (weights finishedLite) = 1 \<and>
      dadd (dadd (genreW (weights finishedLite)) (finishedW (weights finishedLite)))
        (toReadW (weights finishedLite)) = 1) \<and>
   (finishedLite = [] \<longrightarrow>
      genreW (weights finishedLite) + finishedW (weights finishedLite) + toReadW (weights finishedLite) =
        1 - 1 / 2 ^ 55 \<and>
      dadd (dadd (genreW (weights finishedLite)) (finishedW (weights finishedLite)))
        (toReadW (weights finishedLite)) = 1 - 1 / 2 ^ 53)"
  using double_weights_finished double_weights_no_finished by (simp add: weights_def)

text \<open>A finished shelf of one book, and the empty one.\<close>

theorem weights_sum_witness:
  "genreW (weights [\<lparr>shelfGoogleBooksId = ''f1'', shelfTitle = ''Emma'', shelfDescription = ''A novel''\<rparr>]) +
   finishedW (weights [\<lparr>shelfGoogleBooksId = ''f1'', shelfTitle = ''Emma'', shelfDescription = ''A novel''\<rparr>]) +
   toReadW (weights [\<lparr>shelfGoogleBooksId = ''f1'', shelfTitle = ''Emma'', shelfDescription = ''A novel''\<rparr>]) = 1 \<and>
   dadd (dadd (genreW (weights [])) (finishedW (weights []))) (toReadW (weights [])) = 1 - 1 / 2 ^ 53"
proof -
  have h: "[\<lparr>shelfGoogleBooksId = ''f1'', shelfTitle = ''Emma'', shelfDescription = ''A novel''\<rparr>] \<noteq> []"
    by simp
  from weights_sum[of "[\<lparr>shelfGoogleBooksId = ''f1'', shelfTitle = ''Emma'', shelfDescription = ''A novel''\<rparr>]"]
    weights_sum[of "[]"] h
  show ?thesis by blast
qed

section \<open>The ranked selector\<close>

lemma insertBy_insort_key:
  "insertBy (\<lambda>a b. score b - score a) x ys = insort_key (\<lambda>s. - score s) x ys"
  by (induction ys) auto

lemma sortScored_sort_key: "sortScored scored = sort_key (\<lambda>s. - score s) scored"
proof -
  have "insertBy (\<lambda>a b. score b - score a) = insort_key (\<lambda>s. - score s)"
    by (intro ext) (rule insertBy_insort_key)
  then have "foldr (insertBy (\<lambda>a b. score b - score a)) scored [] =
      foldr (insort_key (\<lambda>s. - score s)) scored []"
    by (rule arg_cong[where f = "\<lambda>h. foldr h scored []"])
  then show ?thesis
    by (simp only: sortScored_def jsSort_def sort_key_def)
qed

text \<open>
  Claim C6. The sorted list holds the scored candidates, all of them and each as often as
  before; it is ordered by falling score; the candidates of any one score are in the order
  they had before the sort, which is the order of the aggregator's output; and the list
  emitted is the first 20 elements of the sorted list, or the whole list when it is shorter.
\<close>

theorem ranked_selector:
  "mset (sortScored scored) = mset scored \<and>
   sorted_wrt (\<lambda>a b. score a \<ge> score b) (sortScored scored) \<and>
   (\<forall>k. filter (\<lambda>s. score s = k) (sortScored scored) = filter (\<lambda>s. score s = k) scored) \<and>
   top20 scored = take 20 (sortScored scored) \<and>
   length (top20 scored) = min 20 (length scored)"
proof -
  let ?f = "\<lambda>s. - score s"
  have "sorted (map ?f (sortScored scored))"
    unfolding sortScored_sort_key by (rule sorted_sort_key)
  then have s: "sorted_wrt (\<lambda>a b. score a \<ge> score b) (sortScored scored)"
    by (simp add: sorted_map)
  have st: "filter (\<lambda>s. score s = k) (sortScored scored) = filter (\<lambda>s. score s = k) scored" for k
    using sort_key_stable[of ?f "- k" scored] by (simp add: sortScored_sort_key)
  have l: "length (sortScored scored) = length scored"
    by (simp add: sortScored_sort_key)
  have m: "mset (sortScored scored) = mset scored"
    by (simp add: sortScored_sort_key)
  show ?thesis
    using m s st l by (simp add: top20_def min.commute)
qed



section \<open>Cover lookups\<close>

lemma cover_never_throws: "\<not> isl (fetchOpenLibraryCover res)"
  by (simp add: fetchOpenLibraryCover_def split: sum.splits)

lemma cover_rejected: "fetchOpenLibraryCover (CoverRejected st) = Inr None"
  "fetchOpenLibraryCover CoverNoData = Inr None"
  by (simp_all add: fetchOpenLibraryCover_def coverLookupBody_def)

lemma volume_never_throws: "\<not> isl (fetchGoogleVolumeCategories res)"
  by (simp add: fetchGoogleVolumeCategories_def split: sum.splits)

lemma collect_isl: "isl (collect rs) \<longleftrightarrow> (\<exists>r\<in>set rs. isl r)"
  by (induction rs) (auto split: sum.splits)

lemma collect_drop_null:
  assumes "\<And>x. x \<in> set xs \<Longrightarrow> \<not> P x \<Longrightarrow> f x = Inr None"
  shows "collect (map f (filter P xs)) = collect (map f xs)"
  using assms
proof (induction xs)
  case Nil
  show ?case by simp
next
  case (Cons x xs)
  have IH: "collect (map f (filter P xs)) = collect (map f xs)"
    using Cons by simp
  show ?case
  proof (cases "P x")
    case True
    then show ?thesis by (simp add: IH split: sum.splits)
  next
    case False
    then have "f x = Inr None" using Cons.prems by simp
    with False show ?thesis by (simp add: IH split: sum.splits)
  qed
qed

lemma collect_members:
  "collect rs = Inr vs \<Longrightarrow> v \<in> set vs \<Longrightarrow> Inr (Some v) \<in> set rs"
proof (induction rs arbitrary: vs)
  case Nil
  then show ?case by simp
next
  case (Cons r rs)
  then show ?case
    by (auto split: sum.splits option.splits)
qed

lemma toCandidate_no_cover:
  "volumeInfo item \<noteq> None \<Longrightarrow> fetchOpenLibraryCover cover = Inr None \<Longrightarrow>
   toCandidate item cover = Inr None"
  by (auto simp: toCandidate_def)

lemma toCandidate_isl: "isl (toCandidate item cover) \<longleftrightarrow> volumeInfo item = None"
  using cover_never_throws[of cover]
  by (auto simp: toCandidate_def split: option.splits sum.splits)

lemma toCandidate_Some:
  "toCandidate item cover = Inr (Some c) \<Longrightarrow>
   googleBooksId c = itemId item \<and> fetchOpenLibraryCover cover = Inr (Some (coverUrl c))"
  by (auto simp: toCandidate_def split: option.splits sum.splits if_splits)

lemma toSearchBook_no_cover:
  "fetchOpenLibraryCover cover = Inr None \<Longrightarrow> toSearchBook gs metaId vi cover volume = Inr None"
  by (simp add: toSearchBook_def)

lemma toSearchBook_not_isl: "\<not> isl (toSearchBook gs metaId vi cover volume)"
  using cover_never_throws[of cover] volume_never_throws[of volume]
  by (auto simp: toSearchBook_def Let_def split: option.splits sum.splits)

lemma fetchBooks_drop:
  "fetchBooksFromGoogle
     (GoogleItems (filter (\<lambda>ic. \<not> (volumeInfo (fst ic) \<noteq> None \<and> noCover (snd ic))) items)) =
   fetchBooksFromGoogle (GoogleItems items)"
  unfolding fetchBooksFromGoogle_def googleResponse.case
  by (rule collect_drop_null) (auto simp: noCover_def intro: toCandidate_no_cover)

lemma fetchBooks_isl:
  "isl (fetchBooksFromGoogle (GoogleItems items)) \<longleftrightarrow> (\<exists>ic\<in>set items. volumeInfo (fst ic) = None)"
  by (simp add: fetchBooksFromGoogle_def collect_isl toCandidate_isl)

lemma fetchBooks_members:
  assumes "fetchBooksFromGoogle (GoogleItems items) = Inr cs" "c \<in> set cs"
  shows "\<exists>ic\<in>set items. googleBooksId c = itemId (fst ic) \<and>
           fetchOpenLibraryCover (snd ic) = Inr (Some (coverUrl c))"
proof -
  from assms have "Inr (Some c) \<in> set (map (\<lambda>ic. toCandidate (fst ic) (snd ic)) items)"
    unfolding fetchBooksFromGoogle_def googleResponse.case by (rule collect_members)
  then obtain ic where "ic \<in> set items" "toCandidate (fst ic) (snd ic) = Inr (Some c)"
    by auto
  then show ?thesis
    using toCandidate_Some by blast
qed

lemma metadataOf_filter:
  "metadataOf (filter (\<lambda>icv. \<not> noCover (fst (snd icv))) items) =
   filter (\<lambda>m. \<not> noCover (fst (snd (snd m)))) (metadataOf items)"
  by (induction items) (auto simp: metadataOf_def split: option.splits)

lemma searchBooks_unfold:
  "searchBooksFromGoogle lc gs (SearchItems (Some items)) =
     (case collect (map (\<lambda>(metaId, vi, cover, volume). toSearchBook gs metaId vi cover volume)
             (metadataOf items)) of
        Inl err \<Rightarrow> Inl err
      | Inr filteredBooks \<Rightarrow> Inr (jsSort (compareBooks lc) (uniqueBooks filteredBooks)))"
  by (simp add: searchBooksFromGoogle_def)

lemma searchBooks_drop:
  "searchBooksFromGoogle lc gs (SearchItems (Some (filter (\<lambda>icv. \<not> noCover (fst (snd icv))) items))) =
   searchBooksFromGoogle lc gs (SearchItems (Some items))"
proof -
  have "collect (map (\<lambda>(metaId, vi, cover, volume). toSearchBook gs metaId vi cover volume)
            (filter (\<lambda>m. \<not> noCover (fst (snd (snd m)))) (metadataOf items))) =
        collect (map (\<lambda>(metaId, vi, cover, volume). toSearchBook gs metaId vi cover volume)
            (metadataOf items))"
    by (rule collect_drop_null) (auto simp: noCover_def toSearchBook_no_cover)
  then show ?thesis
    by (simp only: searchBooks_unfold metadataOf_filter)
qed

lemma searchBooks_not_isl: "\<not> isl (searchBooksFromGoogle lc gs (SearchItems x))"
proof (cases x)
  case None
  then show ?thesis by (simp add: searchBooksFromGoogle_def)
next
  case (Some items)
  have "\<not> isl (collect (map (\<lambda>(metaId, vi, cover, volume). toSearchBook gs metaId vi cover volume)
            (metadataOf items)))"
    by (auto simp: collect_isl toSearchBook_not_isl)
  then show ?thesis
    unfolding Some searchBooks_unfold by (auto split: sum.splits)
qed

lemma searchRoute_status:
  assumes "trim query \<noteq> []" "google (trim query) = SearchItems x"
  shows "status (searchRoute db lc google query) = 200"
  using assms searchBooks_not_isl[of lc "dbGenres db" x]
  by (auto simp: searchRoute_def Let_def split: sum.splits)

lemma aggregateLoop_ok:
  assumes "\<forall>ug\<in>set ugs. \<not> isl (fetchBooksFromGoogle (google (''subject:'' @ gname (ugGenre ug))))"
  shows "\<exists>m t. aggregateLoop google excl ugs cm tr = (Inr m, t)"
  using assms
proof (induction ugs arbitrary: cm tr)
  case Nil
  show ?case by simp
next
  case (Cons ug ugs)
  then obtain rawBooks where
    "fetchBooksFromGoogle (google (''subject:'' @ gname (ugGenre ug))) = Inr rawBooks"
    by (cases "fetchBooksFromGoogle (google (''subject:'' @ gname (ugGenre ug)))") auto
  then show ?case
    using Cons.IH[of "foldl (addRawBook excl (ugGenre ug)) cm rawBooks"] Cons.prems
    by (simp add: Let_def)
qed

lemma fetchRoute_status:
  assumes "uid \<noteq> 0"
    "\<forall>ug\<in>set (dbUserGenres db uid).
       \<not> isl (fetchBooksFromGoogle (google (''subject:'' @ gname (ugGenre ug))))"
  shows "status (fst (fetchRoute db google (Some uid))) = 200"
proof -
  obtain m t where "aggregateLoop google (excludeGoogleIds db uid) (dbUserGenres db uid) [] [] = (Inr m, t)"
    using aggregateLoop_ok[OF assms(2)] by blast
  then show ?thesis
    using assms(1) by (simp add: fetchRoute_def Let_def)
qed

text \<open>
  Claim C8. A lookup that is rejected (at any status, 429 included) or whose reply has no
  data yields no cover, and the lookup never throws. An item whose lookup yields no cover
  gives no candidate, in the recommendations route and in the search route. The books that
  a fetch returns are those of the items left when the items without a cover are removed;
  every returned candidate belongs to an item whose lookup found its cover; a fetch of the
  recommendations route fails only on an item without \<open>volumeInfo\<close>, and a fetch of the
  search route never fails once the metadata service has replied. So the routes answer
  with status 200 whatever the cover service does: the recommendations route when every
  query of a preferred genre is answered with items that have \<open>volumeInfo\<close>, the search
  route when the query is not blank and is answered.
\<close>

theorem cover_failure_drops_candidate:
  "noCover (CoverRejected st) \<and> noCover CoverNoData \<and> \<not> isl (fetchOpenLibraryCover res) \<and>
   (volumeInfo item \<noteq> None \<and> noCover cover \<longrightarrow> toCandidate item cover = Inr None) \<and>
   (noCover cover \<longrightarrow> toSearchBook gs metaId vi cover volume = Inr None) \<and>
   fetchBooksFromGoogle
     (GoogleItems (filter (\<lambda>ic. \<not> (volumeInfo (fst ic) \<noteq> None \<and> noCover (snd ic))) items)) =
     fetchBooksFromGoogle (GoogleItems items) \<and>
   (isl (fetchBooksFromGoogle (GoogleItems items)) \<longleftrightarrow>
      (\<exists>ic\<in>set items. volumeInfo (fst ic) = None)) \<and>
   (\<forall>cs. fetchBooksFromGoogle (GoogleItems items) = Inr cs \<longrightarrow>
      (\<forall>c\<in>set cs. \<exists>ic\<in>set items. googleBooksId c = itemId (fst ic) \<and>
         fetchOpenLibraryCover (snd ic) = Inr (Some (coverUrl c)))) \<and>
   searchBooksFromGoogle lc gs
     (SearchItems (Some (filter (\<lambda>icv. \<not> noCover (fst (snd icv))) sitems))) =
     searchBooksFromGoogle lc gs (SearchItems (Some sitems)) \<and>
   \<not> isl (searchBooksFromGoogle lc gs (SearchItems x)) \<and>
   (uid \<noteq> 0 \<and>
    (\<forall>ug\<in>set (dbUserGenres db uid). \<exists>its.
        google (''subject:'' @ gname (ugGenre ug)) = GoogleItems its \<and>
        (\<forall>ic\<in>set its. volumeInfo (fst ic) \<noteq> None)) \<longrightarrow>
    status (fst (fetchRoute db google (Some uid))) = 200) \<and>
   (trim query \<noteq> [] \<and> sgoogle (trim query) = SearchItems x \<longrightarrow>
    status (searchRoute db lc sgoogle query) = 200)"
proof -
  have a: "noCover (CoverRejected st)" "noCover CoverNoData"
    by (simp_all add: noCover_def cover_rejected)
  have b: "volumeInfo item \<noteq> None \<and> noCover cover \<longrightarrow> toCandidate item cover = Inr None"
    by (simp add: noCover_def toCandidate_no_cover)
  have c: "noCover cover \<longrightarrow> toSearchBook gs metaId vi cover volume = Inr None"
    by (simp add: noCover_def toSearchBook_no_cover)
  have d: "\<forall>cs. fetchBooksFromGoogle (GoogleItems items) = Inr cs \<longrightarrow>
      (\<forall>c\<in>set cs. \<exists>ic\<in>set items. googleBooksId c = itemId (fst ic) \<and>
         fetchOpenLibraryCover (snd ic) = Inr (Some (coverUrl c)))"
    using fetchBooks_members by blast
  have e0: "status (fst (fetchRoute db google (Some uid))) = 200"
    if h: "uid \<noteq> 0 \<and>
      (\<forall>ug\<in>set (dbUserGenres db uid). \<exists>its.
        google (''subject:'' @ gname (ugGenre ug)) = GoogleItems its \<and>
        (\<forall>ic\<in>set its. volumeInfo (fst ic) \<noteq> None))"
  proof (rule fetchRoute_status)
    show "uid \<noteq> 0" using h by simp
    show "\<forall>ug\<in>set (dbUserGenres db uid).
       \<not> isl (fetchBooksFromGoogle (google (''subject:'' @ gname (ugGenre ug))))"
    proof
      fix ug assume "ug \<in> set (dbUserGenres db uid)"
      with h obtain its where "google (''subject:'' @ gname (ugGenre ug)) = GoogleItems its"
        "\<forall>ic\<in>set its. volumeInfo (fst ic) \<noteq> None"
        by blast
      then show "\<not> isl (fetchBooksFromGoogle (google (''subject:'' @ gname (ugGenre ug))))"
        by (simp add: fetchBooks_isl)
    qed
  qed
  have e: "uid \<noteq> 0 \<and>
      (\<forall>ug\<in>set (dbUserGenres db uid). \<exists>its.
        google (''subject:'' @ gname (ugGenre ug)) = GoogleItems its \<and>
        (\<forall>ic\<in>set its. volumeInfo (fst ic) \<noteq> None)) \<longrightarrow>
      status (fst (fetchRoute db google (Some uid))) = 200"
    using e0 by blast
  have f: "trim query \<noteq> [] \<and> sgoogle (trim query) = SearchItems x \<longrightarrow>
      status (searchRoute db lc sgoogle query) = 200"
    using searchRoute_status by blast
  show ?thesis
    by (intro conjI a cover_never_throws b c fetchBooks_drop fetchBooks_isl d
          searchBooks_drop searchBooks_not_isl e f)
qed

text \<open>The cover service limits the rate (status 429) for the one item of every reply: the
  item gives no candidate and both routes answer with status 200.\<close>

theorem cover_failure_drops_candidate_witness:
  "toCandidate exampleItem (CoverRejected 429) = Inr None \<and>
   toSearchBook [] ''g1'' exampleVolume (CoverRejected 429) (VolumeRejected 429) = Inr None \<and>
   status (fst (fetchRoute exampleDb rateLimitedGoogle (Some 1))) = 200 \<and>
   status (searchRoute exampleDb (\<lambda>a b. 0) rateLimitedSearch ''dune'') = 200"
proof -
  have h1: "volumeInfo exampleItem \<noteq> None"
    by (simp add: exampleItem_def)
  have h2: "(1::int) \<noteq> 0 \<and>
    (\<forall>ug\<in>set (dbUserGenres exampleDb 1). \<exists>its.
        rateLimitedGoogle (''subject:'' @ gname (ugGenre ug)) = GoogleItems its \<and>
        (\<forall>ic\<in>set its. volumeInfo (fst ic) \<noteq> None))"
    by (simp add: exampleDb_def rateLimitedGoogle_def exampleItem_def)
  have h3: "trim ''dune'' \<noteq> [] \<and>
    rateLimitedSearch (trim ''dune'') =
      SearchItems (Some [(exampleItem, CoverRejected 429, VolumeRejected 429)])"
    by (simp add: rateLimitedSearch_def trim_def isSpace_def code_def)
  from cover_failure_drops_candidate[of 429 "CoverRejected 429" exampleItem "CoverRejected 429"
      "[]" "''g1''" exampleVolume "VolumeRejected 429" "[]" "\<lambda>a b. 0" "[]"
      "Some [(exampleItem, CoverRejected 429, VolumeRejected 429)]" 1 exampleDb rateLimitedGoogle
      "''dune''" rateLimitedSearch] h1 h2 h3
  show ?thesis by blast
qed

section \<open>The search result\<close>

lemma set_insertBy: "set (insertBy cmp x xs) = insert x (set xs)"
  by (induction xs) auto

lemma mset_insertBy: "mset (insertBy cmp x xs) = add_mset x (mset xs)"
  by (induction xs) auto

lemma mset_jsSort: "mset (jsSort cmp xs) = mset xs"
  by (induction xs) (simp_all add: jsSort_def mset_insertBy)

lemma sorted_insertBy:
  assumes total: "\<And>a b. cmp a b \<le> 0 \<or> cmp b a \<le> 0"
    and trans: "\<And>a b c. cmp a b \<le> 0 \<Longrightarrow> cmp b c \<le> 0 \<Longrightarrow> cmp a c \<le> 0"
    and "sorted_wrt (\<lambda>a b. cmp a b \<le> 0) xs"
  shows "sorted_wrt (\<lambda>a b. cmp a b \<le> 0) (insertBy cmp x xs)"
  using assms(3)
proof (induction xs)
  case Nil
  show ?case by simp
next
  case (Cons y ys)
  show ?case
  proof (cases "cmp x y \<le> 0")
    case True
    have "cmp x z \<le> 0" if "z \<in> set ys" for z
      using Cons.prems that trans[OF True, of z] by simp
    with True Cons.prems show ?thesis by simp
  next
    case False
    then have yx: "cmp y x \<le> 0" using total[of x y] by simp
    have "sorted_wrt (\<lambda>a b. cmp a b \<le> 0) (insertBy cmp x ys)"
      using Cons by simp
    with False yx Cons.prems show ?thesis
      by (simp add: set_insertBy)
  qed
qed

lemma sorted_jsSort:
  assumes total: "\<And>a b. cmp a b \<le> 0 \<or> cmp b a \<le> 0"
    and trans: "\<And>a b c. cmp a b \<le> 0 \<Longrightarrow> cmp b c \<le> 0 \<Longrightarrow> cmp a c \<le> 0"
  shows "sorted_wrt (\<lambda>a b. cmp a b \<le> 0) (jsSort cmp xs)"
proof (induction xs)
  case Nil
  show ?case by (simp add: jsSort_def)
next
  case (Cons x xs)
  have "jsSort cmp (x # xs) = insertBy cmp x (jsSort cmp xs)"
    by (simp add: jsSort_def)
  then show ?case
    using sorted_insertBy[of cmp "jsSort cmp xs" x, OF total trans Cons] by simp
qed

lemma addUnique_invariant:
  assumes "\<forall>e\<in>set m. fst e = searchKey (snd e)" "distinct (map fst m)"
  shows "(\<forall>e\<in>set (addUnique m b). fst e = searchKey (snd e)) \<and> distinct (map fst (addUnique m b))"
proof (cases "searchKey b \<in> set (map fst m)")
  case True
  with assms show ?thesis by (simp add: addUnique_def)
next
  case False
  then have "addUnique m b = m @ [(searchKey b, b)]"
    by (simp add: addUnique_def update_fresh)
  with False assms show ?thesis by auto
qed

lemma uniqueBooks_fold_invariant:
  assumes "\<forall>e\<in>set m0. fst e = searchKey (snd e)" "distinct (map fst m0)"
  shows "(\<forall>e\<in>set (foldl addUnique m0 bs). fst e = searchKey (snd e)) \<and>
         distinct (map fst (foldl addUnique m0 bs))"
  using assms
proof (induction bs arbitrary: m0)
  case Nil
  then show ?case by simp
next
  case (Cons b bs)
  have "(\<forall>e\<in>set (addUnique m0 b). fst e = searchKey (snd e)) \<and> distinct (map fst (addUnique m0 b))"
    using Cons.prems by (rule addUnique_invariant)
  then have "(\<forall>e\<in>set (foldl addUnique (addUnique m0 b) bs). fst e = searchKey (snd e)) \<and>
         distinct (map fst (foldl addUnique (addUnique m0 b) bs))"
    using Cons.IH by blast
  then show ?case by simp
qed

lemma distinct_uniqueBooks: "distinct (map searchKey (uniqueBooks bs))"
proof -
  let ?m = "foldl addUnique [] bs"
  have inv: "\<forall>e\<in>set ?m. fst e = searchKey (snd e)" "distinct (map fst ?m)"
    using uniqueBooks_fold_invariant[of "[]" bs] by simp_all
  have "map searchKey (map snd ?m) = map fst ?m"
    using inv(1) by simp
  with inv(2) show ?thesis by (simp only: uniqueBooks_def)
qed

lemma lc_facts:
  assumes "consistentComparator lc"
  shows lc_flip: "lc a b < 0 \<longleftrightarrow> lc b a > 0"
    and lc_trans: "lc a b \<le> 0 \<Longrightarrow> lc b c \<le> 0 \<Longrightarrow> lc a c \<le> 0"
  using assms unfolding consistentComparator_def by blast+

lemma lc_sym:
  assumes "consistentComparator lc"
  shows "lc a b = 0 \<longleftrightarrow> lc b a = 0"
  using lc_flip[OF assms, of a b] lc_flip[OF assms, of b a] by linarith

lemma lc_total:
  assumes "consistentComparator lc"
  shows "lc a b \<le> 0 \<or> lc b a \<le> 0"
  using lc_flip[OF assms, of b a] by linarith

lemma lc_strict_trans:
  assumes c: "consistentComparator lc" and ab: "lc a b < 0" and bd: "lc b d \<le> 0"
  shows "lc a d < 0"
proof -
  have le: "lc a d \<le> 0" using lc_trans[OF c, of a b d] ab bd by simp
  have "lc a d \<noteq> 0"
  proof
    assume "lc a d = 0"
    then have "lc d a \<le> 0" using lc_sym[OF c, of a d] by simp
    with bd have "lc b a \<le> 0" by (rule lc_trans[OF c])
    moreover have "lc b a > 0" using ab lc_flip[OF c, of a b] by simp
    ultimately show False by simp
  qed
  with le show ?thesis by simp
qed

lemma lc_strict_trans':
  assumes c: "consistentComparator lc" and ab: "lc a b \<le> 0" and bd: "lc b d < 0"
  shows "lc a d < 0"
proof -
  have le: "lc a d \<le> 0" using lc_trans[OF c, of a b d] ab bd by simp
  have "lc a d \<noteq> 0"
  proof
    assume "lc a d = 0"
    then have "lc d a \<le> 0" using lc_sym[OF c, of a d] by simp
    from this ab have "lc d b \<le> 0" by (rule lc_trans[OF c])
    moreover have "lc d b > 0" using bd lc_flip[OF c, of b d] by simp
    ultimately show False by simp
  qed
  with le show ?thesis by simp
qed

lemma compareBooks_le:
  "compareBooks lc a b \<le> 0 \<longleftrightarrow>
     lc (title a) (title b) < 0 \<or> (lc (title a) (title b) = 0 \<and> lc (authors a) (authors b) \<le> 0)"
  by (auto simp: compareBooks_def Let_def)

lemma compareBooks_flip:
  assumes c: "consistentComparator lc"
  shows "compareBooks lc a b < 0 \<longleftrightarrow> compareBooks lc b a > 0"
  using lc_flip[OF c, of "title a" "title b"] lc_flip[OF c, of "title b" "title a"]
    lc_flip[OF c, of "authors a" "authors b"]
  by (auto simp: compareBooks_def Let_def)

lemma compareBooks_total:
  assumes c: "consistentComparator lc"
  shows "compareBooks lc a b \<le> 0 \<or> compareBooks lc b a \<le> 0"
  using compareBooks_flip[OF c, of b a] by linarith

lemma compareBooks_trans:
  assumes c: "consistentComparator lc"
    and ab: "compareBooks lc a b \<le> 0" and bd: "compareBooks lc b d \<le> 0"
  shows "compareBooks lc a d \<le> 0"
proof -
  from ab have ab': "lc (title a) (title b) < 0 \<or>
      (lc (title a) (title b) = 0 \<and> lc (authors a) (authors b) \<le> 0)"
    by (simp add: compareBooks_le)
  from bd have bd': "lc (title b) (title d) < 0 \<or>
      (lc (title b) (title d) = 0 \<and> lc (authors b) (authors d) \<le> 0)"
    by (simp add: compareBooks_le)
  from ab' bd' show ?thesis
  proof (elim disjE conjE)
    assume "lc (title a) (title b) < 0" "lc (title b) (title d) < 0"
    then have "lc (title a) (title d) < 0"
      using lc_strict_trans[OF c, of "title a" "title b" "title d"] by simp
    then show ?thesis by (simp add: compareBooks_le)
  next
    assume "lc (title a) (title b) < 0" "lc (title b) (title d) = 0"
    then have "lc (title a) (title d) < 0"
      using lc_strict_trans[OF c, of "title a" "title b" "title d"] by simp
    then show ?thesis by (simp add: compareBooks_le)
  next
    assume "lc (title a) (title b) = 0" "lc (title b) (title d) < 0"
    then have "lc (title a) (title d) < 0"
      using lc_strict_trans'[OF c, of "title a" "title b" "title d"] by simp
    then show ?thesis by (simp add: compareBooks_le)
  next
    assume t: "lc (title a) (title b) = 0" "lc (title b) (title d) = 0"
      and "lc (authors a) (authors b) \<le> 0" "lc (authors b) (authors d) \<le> 0"
    then have au: "lc (authors a) (authors d) \<le> 0"
      using lc_trans[OF c, of "authors a" "authors b" "authors d"] by simp
    have "lc (title a) (title d) \<le> 0"
      using t lc_trans[OF c, of "title a" "title b" "title d"] by simp
    moreover have "lc (title d) (title a) \<le> 0"
      using t lc_sym[OF c, of "title a" "title b"] lc_sym[OF c, of "title b" "title d"]
        lc_trans[OF c, of "title d" "title b" "title a"] by simp
    ultimately have "lc (title a) (title d) = 0"
      using lc_flip[OF c, of "title a" "title d"] by linarith
    with au show ?thesis by (simp add: compareBooks_le)
  qed
qed

lemma lc_eq_trans:
  assumes c: "consistentComparator lc" and "lc t x = 0" "lc t y = 0"
  shows "lc x y = 0"
proof -
  have xt: "lc x t = 0" using assms(2) lc_sym[OF c, of t x] by simp
  have yt: "lc y t = 0" using assms(3) lc_sym[OF c, of t y] by simp
  have "lc x y \<le> 0" using lc_trans[OF c, of x t y] xt assms(3) by simp
  moreover have "lc y x \<le> 0" using lc_trans[OF c, of y t x] yt assms(2) by simp
  ultimately show ?thesis using lc_flip[OF c, of x y] by linarith
qed

text \<open>The sort is stable: elements that compare equal keep their order.\<close>

lemma filter_insertBy:
  assumes "\<And>x y. E x \<Longrightarrow> E y \<Longrightarrow> cmp x y \<le> 0"
  shows "filter E (insertBy cmp x ys) = (if E x then x # filter E ys else filter E ys)"
  using assms by (induction ys) auto

lemma filter_jsSort:
  assumes "\<And>x y. E x \<Longrightarrow> E y \<Longrightarrow> cmp x y \<le> 0"
  shows "filter E (jsSort cmp xs) = filter E xs"
proof (induction xs)
  case Nil
  show ?case by (simp add: jsSort_def)
next
  case (Cons x xs)
  have "jsSort cmp (x # xs) = insertBy cmp x (jsSort cmp xs)"
    by (simp add: jsSort_def)
  then show ?case
    using filter_insertBy[of E cmp x "jsSort cmp xs", OF assms] Cons by simp
qed

lemma filter_sorted_books:
  assumes c: "consistentComparator lc"
  shows "filter (\<lambda>b. lc t (title b) = 0 \<and> lc a (authors b) = 0) (jsSort (compareBooks lc) bs) =
         filter (\<lambda>b. lc t (title b) = 0 \<and> lc a (authors b) = 0) bs"
proof (rule filter_jsSort)
  fix x y :: SearchBook
  assume "lc t (title x) = 0 \<and> lc a (authors x) = 0" "lc t (title y) = 0 \<and> lc a (authors y) = 0"
  then have "lc (title x) (title y) = 0" "lc (authors x) (authors y) = 0"
    using lc_eq_trans[OF c] by blast+
  then show "compareBooks lc x y \<le> 0" by (simp add: compareBooks_le)
qed

lemma searchKey_eq: "title a = title b \<Longrightarrow> authors a = authors b \<Longrightarrow> searchKey a = searchKey b"
  by (simp add: searchKey_def)

lemma sorted_wrt_distinct_strict:
  assumes "sorted_wrt P xs" "distinct (map f xs)"
    "\<And>a b. a \<in> set xs \<Longrightarrow> b \<in> set xs \<Longrightarrow> P a b \<Longrightarrow> f a \<noteq> f b \<Longrightarrow> Q a b"
  shows "sorted_wrt Q xs"
  using assms
proof (induction xs)
  case Nil
  show ?case by simp
next
  case (Cons x xs)
  have "sorted_wrt Q xs"
    using Cons.IH Cons.prems by auto
  moreover have "Q x y" if "y \<in> set xs" for y
    using that Cons.prems by (auto simp: image_iff)
  ultimately show ?case by simp
qed

lemma sorted_unique_books:
  assumes c: "consistentComparator lc"
  shows "distinct (map searchKey (jsSort (compareBooks lc) (uniqueBooks bs))) \<and>
         sorted_wrt (\<lambda>a b. lc (title a) (title b) < 0 \<or>
                       (lc (title a) (title b) = 0 \<and> lc (authors a) (authors b) \<le> 0))
           (jsSort (compareBooks lc) (uniqueBooks bs))"
proof -
  let ?s = "jsSort (compareBooks lc) (uniqueBooks bs)"
  have "mset (map searchKey ?s) = mset (map searchKey (uniqueBooks bs))"
    by (simp add: mset_jsSort)
  then have d: "distinct (map searchKey ?s)"
    using distinct_uniqueBooks[of bs] by (metis mset_eq_imp_distinct_iff)
  have s: "sorted_wrt (\<lambda>a b. compareBooks lc a b \<le> 0) ?s"
    by (rule sorted_jsSort) (use compareBooks_total[OF c] compareBooks_trans[OF c] in blast)+
  then have "sorted_wrt (\<lambda>a b. lc (title a) (title b) < 0 \<or>
                       (lc (title a) (title b) = 0 \<and> lc (authors a) (authors b) \<le> 0)) ?s"
    by (simp add: compareBooks_le)
  with d show ?thesis by simp
qed

lemma strictly_sorted_books:
  assumes d: "distinct (map searchKey books)"
    and s: "sorted_wrt (\<lambda>a b. lc (title a) (title b) < 0 \<or>
                       (lc (title a) (title b) = 0 \<and> lc (authors a) (authors b) \<le> 0)) books"
    and inj: "\<forall>a\<in>set books. \<forall>b\<in>set books.
                (lc (title a) (title b) = 0 \<longrightarrow> title a = title b) \<and>
                (lc (authors a) (authors b) = 0 \<longrightarrow> authors a = authors b)"
  shows "sorted_wrt (\<lambda>a b. lc (title a) (title b) < (0::int) \<or>
                       (title a = title b \<and> lc (authors a) (authors b) < 0)) books"
  using s d
proof (rule sorted_wrt_distinct_strict)
  fix a b :: SearchBook
  assume ab: "a \<in> set books" "b \<in> set books"
    and le: "lc (title a) (title b) < 0 \<or>
             (lc (title a) (title b) = 0 \<and> lc (authors a) (authors b) \<le> 0)"
    and k: "searchKey a \<noteq> searchKey b"
  show "lc (title a) (title b) < 0 \<or> (title a = title b \<and> lc (authors a) (authors b) < 0)"
  proof (cases "lc (title a) (title b) < 0")
    case True
    then show ?thesis by simp
  next
    case False
    with le have t0: "lc (title a) (title b) = 0" and au: "lc (authors a) (authors b) \<le> 0"
      by simp_all
    from t0 inj ab have t: "title a = title b" by blast
    have "lc (authors a) (authors b) \<noteq> 0"
    proof
      assume "lc (authors a) (authors b) = 0"
      with inj ab have "authors a = authors b" by blast
      with t k show False using searchKey_eq[of a b] by simp
    qed
    with au t show ?thesis by simp
  qed
qed

lemma overlay_fields [simp]:
  "title (overlay m b) = title b" "authors (overlay m b) = authors b"
  "searchKey (overlay m b) = searchKey b" "googleBooksId (overlay m b) = googleBooksId b"
  by (auto simp: overlay_def searchKey_def split: option.splits)

lemma plain_first_titles:
  "map title (booksOf (searchRoute exampleDb collationCompare plainFirstSearch ''dune'')) =
     [''Dune'', hyphenatedTitle]"
  by code_simp

lemma plain_first_authors:
  "map authors (booksOf (searchRoute exampleDb collationCompare plainFirstSearch ''dune'')) =
     [''Frank Herbert'', ''Frank Herbert'']"
  by code_simp

lemma hyphenated_first_titles:
  "map title (booksOf (searchRoute exampleDb collationCompare hyphenatedFirstSearch ''dune'')) =
     [hyphenatedTitle, ''Dune'']"
  by code_simp

lemma hyphenated_compare:
  "''Dune'' \<noteq> hyphenatedTitle"
  "map code ''Dune'' < map code hyphenatedTitle"
  "collationCompare ''Dune'' hyphenatedTitle = 0"
  "collationCompare hyphenatedTitle ''Dune'' = 0"
  "collationCompare ''Frank Herbert'' ''Frank Herbert'' = 0"
  by code_simp+

text \<open>
  Claim C9. The metadata service lists Dune and the same title with a soft hyphen, by the
  same author. The two titles are different strings that compare equal, and the answer has
  both books, in the order of the reply, whichever it is. So neither title compares
  smaller, the titles are not the same, and in one of the two answers the title that is
  the larger one by code units comes first.
\<close>

theorem search_order_counterexample:
  "map title (booksOf (searchRoute exampleDb collationCompare plainFirstSearch ''dune'')) =
     [''Dune'', hyphenatedTitle] \<and>
   map authors (booksOf (searchRoute exampleDb collationCompare plainFirstSearch ''dune'')) =
     [''Frank Herbert'', ''Frank Herbert''] \<and>
   map title (booksOf (searchRoute exampleDb collationCompare hyphenatedFirstSearch ''dune'')) =
     [hyphenatedTitle, ''Dune''] \<and>
   ''Dune'' \<noteq> hyphenatedTitle \<and>
   map code ''Dune'' < map code hyphenatedTitle \<and>
   collationCompare ''Dune'' hyphenatedTitle = 0 \<and>
   collationCompare hyphenatedTitle ''Dune'' = 0 \<and>
   collationCompare ''Frank Herbert'' ''Frank Herbert'' = 0"
  using plain_first_titles plain_first_authors hyphenated_first_titles hyphenated_compare
  by (intro conjI)

text \<open>
  Claim C9, amended. The comparison of the platform is taken to be consistent. Then the
  books of every answer of the search route have pairwise different keys, and of any two
  of them the earlier has the smaller title, or a title that compares equal and an author
  string that compares smaller or equal. When the comparison tells apart the titles and
  the author strings of the answer, the earlier has the smaller title, or the same title
  and the smaller author string. Books whose titles and author strings both compare equal
  stand in the order of the reply of the metadata service.
\<close>

theorem search_result_sorted:
  assumes "consistentComparator lc"
    and "body (searchRoute db lc google query) = BooksBody books"
  shows "distinct (map searchKey books) \<and>
         sorted_wrt (\<lambda>a b. lc (title a) (title b) < 0 \<or>
                       (lc (title a) (title b) = 0 \<and> lc (authors a) (authors b) \<le> 0)) books \<and>
         ((\<forall>a\<in>set books. \<forall>b\<in>set books.
             (lc (title a) (title b) = 0 \<longrightarrow> title a = title b) \<and>
             (lc (authors a) (authors b) = 0 \<longrightarrow> authors a = authors b)) \<longrightarrow>
            sorted_wrt (\<lambda>a b. lc (title a) (title b) < 0 \<or>
                          (title a = title b \<and> lc (authors a) (authors b) < 0)) books) \<and>
         (\<forall>items t a.
            google (trim query) = SearchItems (Some items) \<longrightarrow>
            map googleBooksId (filter (\<lambda>b. lc t (title b) = 0 \<and> lc a (authors b) = 0) books) =
            map googleBooksId (filter (\<lambda>b. lc t (title b) = 0 \<and> lc a (authors b) = 0)
                                 (dedupedBooks (dbGenres db) items)))"
proof -
  let ?q = "trim query"
  let ?P = "\<lambda>a b. lc (title a) (title b) < 0 \<or> (lc (title a) (title b) = 0 \<and> lc (authors a) (authors b) \<le> 0)"
  from assms(2) obtain fetched m where
    f: "searchBooksFromGoogle lc (dbGenres db) (google ?q) = Inr fetched"
    and b: "books = map (overlay m) fetched"
    by (auto simp: searchRoute_def Let_def split: if_splits sum.splits)
  have "distinct (map searchKey fetched) \<and> sorted_wrt ?P fetched"
  proof (cases "google ?q")
    case (SearchRejected st)
    with f show ?thesis by (simp add: searchBooksFromGoogle_def)
  next
    case (SearchItems x)
    show ?thesis
    proof (cases x)
      case None
      with f SearchItems show ?thesis by (simp add: searchBooksFromGoogle_def)
    next
      case (Some items)
      with f SearchItems obtain bs where "fetched = jsSort (compareBooks lc) (uniqueBooks bs)"
        by (auto simp: searchBooksFromGoogle_def Let_def split: sum.splits)
      then show ?thesis using sorted_unique_books[OF assms(1), of bs] by simp
    qed
  qed
  then have order: "distinct (map searchKey books)" "sorted_wrt ?P books"
    unfolding b by (simp_all add: sorted_wrt_map comp_def)
  have stable: "map googleBooksId (filter (\<lambda>b. lc t (title b) = 0 \<and> lc a (authors b) = 0) books) =
      map googleBooksId (filter (\<lambda>b. lc t (title b) = 0 \<and> lc a (authors b) = 0)
                           (dedupedBooks (dbGenres db) items))"
    if g: "google ?q = SearchItems (Some items)" for items t a
  proof -
    from f g have fe: "fetched = jsSort (compareBooks lc) (dedupedBooks (dbGenres db) items)"
      by (auto simp: searchBooksFromGoogle_def dedupedBooks_def split: sum.splits)
    have "filter (\<lambda>b. lc t (title b) = 0 \<and> lc a (authors b) = 0) books =
          map (overlay m) (filter (\<lambda>b. lc t (title b) = 0 \<and> lc a (authors b) = 0) fetched)"
      unfolding b by (simp add: filter_map comp_def)
    also have "filter (\<lambda>b. lc t (title b) = 0 \<and> lc a (authors b) = 0) fetched =
               filter (\<lambda>b. lc t (title b) = 0 \<and> lc a (authors b) = 0) (dedupedBooks (dbGenres db) items)"
      unfolding fe by (rule filter_sorted_books[OF assms(1)])
    finally show ?thesis by (simp add: comp_def)
  qed
  from order strictly_sorted_books[OF order] stable show ?thesis by blast
qed

lemma collationCompare_consistent: "consistentComparator collationCompare"
  unfolding consistentComparator_def collationCompare_def by auto

lemma searchRoute_body:
  "status (searchRoute db lc google query) = 200 \<Longrightarrow>
   body (searchRoute db lc google query) = BooksBody (booksOf (searchRoute db lc google query))"
  by (auto simp: searchRoute_def booksOf_def Let_def split: if_splits sum.splits)

lemma example_titles:
  "map title (booksOf (searchRoute exampleDb collationCompare exampleSearch ''dune emma'')) =
     [''Dune'', ''Emma'']"
  by code_simp

lemma example_authors:
  "map authors (booksOf (searchRoute exampleDb collationCompare exampleSearch ''dune emma'')) =
     [''Frank Herbert'', ''Frank Herbert'']"
  by code_simp

lemma plain_first_deduped:
  "map googleBooksId
     (filter (\<lambda>b. collationCompare ''Dune'' (title b) = 0 \<and>
                   collationCompare ''Frank Herbert'' (authors b) = 0)
        (dedupedBooks (dbGenres exampleDb)
           [(exampleItem, CoverDocs (Some [\<lparr>cover_i = 1\<rparr>]), VolumeCategories None),
            (hyphenatedItem, CoverDocs (Some [\<lparr>cover_i = 8\<rparr>]), VolumeCategories None)])) =
   [''g1'', ''g8'']"
  by code_simp

lemma example_compare:
  "collationCompare ''Dune'' ''Emma'' \<noteq> 0" "collationCompare ''Emma'' ''Dune'' \<noteq> 0"
  by code_simp+

text \<open>A search answered with Emma, Dune and DUNE: DUNE is a duplicate of Dune, and Dune
  comes before Emma. And the search answered with the two spellings of Dune, which stay
  in the order of the reply.\<close>

theorem search_result_sorted_witness:
  "consistentComparator collationCompare \<and>
   map title (booksOf (searchRoute exampleDb collationCompare exampleSearch ''dune emma'')) =
     [''Dune'', ''Emma''] \<and>
   distinct (map searchKey (booksOf (searchRoute exampleDb collationCompare exampleSearch ''dune emma''))) \<and>
   sorted_wrt (\<lambda>a b. collationCompare (title a) (title b) < 0 \<or>
                 (title a = title b \<and> collationCompare (authors a) (authors b) < 0))
     (booksOf (searchRoute exampleDb collationCompare exampleSearch ''dune emma'')) \<and>
   map googleBooksId
     (filter (\<lambda>b. collationCompare ''Dune'' (title b) = 0 \<and>
                   collationCompare ''Frank Herbert'' (authors b) = 0)
        (booksOf (searchRoute exampleDb collationCompare plainFirstSearch ''dune''))) =
   [''g1'', ''g8'']"
proof -
  let ?r = "searchRoute exampleDb collationCompare exampleSearch ''dune emma''"
  let ?p = "searchRoute exampleDb collationCompare plainFirstSearch ''dune''"
  have "trim ''dune emma'' \<noteq> []"
    by (simp add: trim_def isSpace_def code_def)
  then have "status ?r = 200"
    by (rule searchRoute_status) (simp add: exampleSearch_def)
  then have b: "body ?r = BooksBody (booksOf ?r)"
    by (rule searchRoute_body)
  have ti: "title x \<in> {''Dune'', ''Emma''}" if "x \<in> set (booksOf ?r)" for x
  proof -
    from that have "title x \<in> set (map title (booksOf ?r))" by simp
    then show ?thesis unfolding example_titles by simp
  qed
  have au: "authors x = ''Frank Herbert''" if "x \<in> set (booksOf ?r)" for x
  proof -
    from that have "authors x \<in> set (map authors (booksOf ?r))" by simp
    then show ?thesis unfolding example_authors by simp
  qed
  have inj: "\<forall>a\<in>set (booksOf ?r). \<forall>b\<in>set (booksOf ?r).
      (collationCompare (title a) (title b) = 0 \<longrightarrow> title a = title b) \<and>
      (collationCompare (authors a) (authors b) = 0 \<longrightarrow> authors a = authors b)"
  proof (intro ballI conjI impI)
    fix a b
    assume A: "a \<in> set (booksOf ?r)" and B: "b \<in> set (booksOf ?r)"
      and z: "collationCompare (title a) (title b) = 0"
    from ti[OF A] ti[OF B]
    have "title a = ''Dune'' \<or> title a = ''Emma''" "title b = ''Dune'' \<or> title b = ''Emma''"
      by blast+
    with z example_compare show "title a = title b" by auto
  next
    fix a b
    assume "a \<in> set (booksOf ?r)" "b \<in> set (booksOf ?r)"
    with au[of a] au[of b] show "authors a = authors b" by simp
  qed
  have tp: "trim ''dune'' = ''dune''"
    by (simp add: trim_def isSpace_def code_def)
  have g: "plainFirstSearch (trim ''dune'') = SearchItems (Some
      [(exampleItem, CoverDocs (Some [\<lparr>cover_i = 1\<rparr>]), VolumeCategories None),
       (hyphenatedItem, CoverDocs (Some [\<lparr>cover_i = 8\<rparr>]), VolumeCategories None)])"
    by (simp add: plainFirstSearch_def)
  have "status ?p = 200"
    by (rule searchRoute_status[where query = "''dune''" and google = plainFirstSearch, OF _ g])
       (simp add: tp)
  then have bp: "body ?p = BooksBody (booksOf ?p)"
    by (rule searchRoute_body)
  from search_result_sorted[OF collationCompare_consistent b] inj
    search_result_sorted[OF collationCompare_consistent bp] g
    example_titles plain_first_deduped collationCompare_consistent
  show ?thesis by (simp del: One_nat_def)
qed

section \<open>Requests with nothing to recommend\<close>

lemma aggregateLoop_trace:
  "aggregateLoop google excl ugs cm tr = (r, t) \<Longrightarrow> (\<forall>e\<in>set tr. \<exists>q. e = GoogleFetch q) \<Longrightarrow>
   (\<forall>e\<in>set t. \<exists>q. e = GoogleFetch q)"
proof (induction ugs arbitrary: cm tr)
  case Nil
  then show ?case by simp
next
  case (Cons ug ugs)
  show ?case
  proof (cases "fetchBooksFromGoogle (google (''subject:'' @ gname (ugGenre ug)))")
    case (Inl err)
    with Cons.prems show ?thesis by (auto simp: Let_def)
  next
    case (Inr rawBooks)
    with Cons.prems(1) have "aggregateLoop google excl ugs
        (foldl (addRawBook excl (ugGenre ug)) cm rawBooks)
        (tr @ [GoogleFetch (''subject:'' @ gname (ugGenre ug))]) = (r, t)"
      by (simp add: Let_def)
    then show ?thesis
      by (rule Cons.IH) (use Cons.prems(2) in auto)
  qed
qed

lemma poolLoop_keys:
  "poolLoop google seen ugs pools tr = (Inr pools', t) \<Longrightarrow>
   fst ` set pools' = fst ` set pools \<union> (\<lambda>ug. gid (ugGenre ug)) ` set ugs"
proof (induction ugs arbitrary: pools tr)
  case Nil
  then show ?case by simp
next
  case (Cons ug ugs)
  show ?case
  proof (cases "fetchBooksFromGoogle (google (''subject:'' @ gname (ugGenre ug)))")
    case (Inl err)
    with Cons.prems show ?thesis by (simp add: Let_def)
  next
    case (Inr rawBooks)
    with Cons.prems have "poolLoop google seen ugs
        (AList.update (gid (ugGenre ug)) (poolFor seen rawBooks) pools)
        (tr @ [GoogleFetch (''subject:'' @ gname (ugGenre ug))]) = (Inr pools', t)"
      by (simp add: Let_def)
    from Cons.IH[OF this] show ?thesis
      by (auto simp: dom_update)
  qed
qed

lemma poolLoop_trace:
  "poolLoop google seen ugs pools tr = (r, t) \<Longrightarrow> (\<forall>e\<in>set tr. \<exists>q. e = GoogleFetch q) \<Longrightarrow>
   (\<forall>e\<in>set t. \<exists>q. e = GoogleFetch q)"
proof (induction ugs arbitrary: pools tr)
  case Nil
  then show ?case by simp
next
  case (Cons ug ugs)
  show ?case
  proof (cases "fetchBooksFromGoogle (google (''subject:'' @ gname (ugGenre ug)))")
    case (Inl err)
    with Cons.prems show ?thesis by (auto simp: Let_def)
  next
    case (Inr rawBooks)
    with Cons.prems(1) have "poolLoop google seen ugs
        (AList.update (gid (ugGenre ug)) (poolFor seen rawBooks) pools)
        (tr @ [GoogleFetch (''subject:'' @ gname (ugGenre ug))]) = (r, t)"
      by (simp add: Let_def)
    then show ?thesis
      by (rule Cons.IH) (use Cons.prems(2) in auto)
  qed
qed

lemma empty_pool_lookup:
  assumes "\<forall>e\<in>set pools. snd e = []" "k \<in> fst ` set pools"
  shows "map_of pools k = Some []"
proof -
  from assms(2) obtain v where "map_of pools k = Some v"
    by (metis domD dom_map_of_conv_image_fst)
  moreover from this have "(k, v) \<in> set pools" by (rule map_of_SomeD)
  ultimately show ?thesis using assms(1) by auto
qed

lemma empty_pools_update:
  assumes "\<forall>e\<in>set pools. snd e = []"
  shows "\<forall>e\<in>set (AList.update k [] pools). snd e = []"
  using assms by (induction pools) auto

lemma roundRobin_all_empty:
  assumes "\<forall>e\<in>set pools. snd e = []" "set rotation \<subseteq> fst ` set pools"
    "rotation = [] \<or> i < length rotation"
  shows "roundRobin final rotation i pools = Inr final"
  using assms
proof (induction "length rotation" arbitrary: rotation i pools)
  case 0
  then show ?case by (subst roundRobin.simps) simp
next
  case (Suc n)
  then have i: "i < length rotation" by auto
  let ?k = "rotation ! i"
  let ?rot1 = "take i rotation @ drop (Suc i) rotation"
  let ?pools1 = "AList.update ?k [] pools"
  have look: "map_of pools ?k = Some []"
    using Suc.prems(1,2) i by (intro empty_pool_lookup) auto
  have len1: "length ?rot1 = n"
    using Suc.hyps(2) i by simp
  have sub1: "set ?rot1 \<subseteq> fst ` set ?pools1"
  proof -
    have "set ?rot1 \<subseteq> set rotation"
      using set_take_subset[of i rotation] set_drop_subset[of "Suc i" rotation] by auto
    with Suc.prems(2) show ?thesis by (auto simp: dom_update)
  qed
  have rec: "roundRobin final ?rot1 (i mod length ?rot1) ?pools1 = Inr final"
    if "?rot1 \<noteq> []"
  proof (rule Suc.hyps(1))
    show "n = length ?rot1" using len1 by simp
    show "\<forall>e\<in>set ?pools1. snd e = []" using Suc.prems(1) by (rule empty_pools_update)
    show "set ?rot1 \<subseteq> fst ` set ?pools1" by (rule sub1)
    from that have "0 < length ?rot1" by (rule length_greater_0_conv[THEN iffD2])
    then show "?rot1 = [] \<or> i mod length ?rot1 < length ?rot1"
      by (intro disjI2 mod_less_divisor)
  qed
  show ?case
  proof (cases "length final < 20")
    case True
    then show ?thesis
      using i look rec by (subst roundRobin.simps) (simp add: Let_def)
  next
    case False
    then show ?thesis by (subst roundRobin.simps) simp
  qed
qed

lemma random_index:
  assumes "0 \<le> (random::rat)" "random < 1" "0 < n"
  shows "nat \<lfloor>random * of_nat n\<rfloor> < n"
proof -
  have "random * of_nat n < of_nat n"
    using assms by (simp add: mult_less_cancel_right1)
  then have "\<lfloor>random * of_nat n\<rfloor> < int n"
    by (simp add: floor_less_iff)
  moreover have "0 \<le> \<lfloor>random * of_nat n\<rfloor>"
    using assms by simp
  ultimately show ?thesis by linarith
qed

lemma roundRobin_route_empty:
  assumes "uid \<noteq> 0" "dbUserGenres db uid \<noteq> []" "0 \<le> random" "random < 1"
    "poolLoop google (dbSeen db uid) (dbUserGenres db uid) [] [] = (Inr pools, t)"
    "\<forall>e\<in>set pools. snd e = []"
  shows "fetchRouteRoundRobin db google random (Some uid) =
           (\<lparr>status = 200, body = BooksBody []\<rparr>, t)"
proof -
  let ?rot = "map (\<lambda>ug. gid (ugGenre ug)) (dbUserGenres db uid)"
  have keys: "set ?rot \<subseteq> fst ` set pools"
    using poolLoop_keys[OF assms(5)] by auto
  have idx: "nat \<lfloor>random * of_nat (length ?rot)\<rfloor> < length ?rot"
    using assms(2,3,4) by (intro random_index) simp_all
  have "roundRobin [] ?rot (nat \<lfloor>random * of_nat (length ?rot)\<rfloor>) pools = Inr []"
    using assms(6) keys idx by (intro roundRobin_all_empty) simp_all
  then show ?thesis
    using assms(1,2,5) by (simp add: fetchRouteRoundRobin_def Let_def)
qed

text \<open>
  Claim C10. For a valid user id, in the ranked version and in the round-robin version of
  the route: when the user has no preferred genre, the route answers with status 200 and
  the message, and does nothing else (no fetch, no scoring, no write); when the user has
  preferred genres and the aggregation ends with no candidate (an empty candidate map,
  or pools that are all empty), the route answers with status 200 and the empty array,
  having done nothing but the fetches of the aggregation.
\<close>

theorem empty_cases_respond_200:
  "(uid \<noteq> 0 \<and> dbUserGenres db uid = [] \<longrightarrow>
      fetchRoute db google (Some uid) =
        (\<lparr>status = 200, body = MessageBody ''User has no selected genres''\<rparr>, []) \<and>
      fetchRouteRoundRobin db google random (Some uid) =
        (\<lparr>status = 200, body = MessageBody ''User has no selected genres''\<rparr>, [])) \<and>
   (uid \<noteq> 0 \<and> dbUserGenres db uid \<noteq> [] \<and>
    aggregateLoop google (excludeGoogleIds db uid) (dbUserGenres db uid) [] [] = (Inr [], t) \<longrightarrow>
      fetchRoute db google (Some uid) = (\<lparr>status = 200, body = BooksBody []\<rparr>, t) \<and>
      (\<forall>e\<in>set t. \<exists>q. e = GoogleFetch q)) \<and>
   (uid \<noteq> 0 \<and> dbUserGenres db uid \<noteq> [] \<and> 0 \<le> random \<and> random < 1 \<and>
    poolLoop google (dbSeen db uid) (dbUserGenres db uid) [] [] = (Inr pools, t) \<and>
    (\<forall>e\<in>set pools. snd e = []) \<longrightarrow>
      fetchRouteRoundRobin db google random (Some uid) = (\<lparr>status = 200, body = BooksBody []\<rparr>, t) \<and>
      (\<forall>e\<in>set t. \<exists>q. e = GoogleFetch q))"
proof -
  have a: "uid \<noteq> 0 \<and> dbUserGenres db uid = [] \<longrightarrow>
      fetchRoute db google (Some uid) =
        (\<lparr>status = 200, body = MessageBody ''User has no selected genres''\<rparr>, []) \<and>
      fetchRouteRoundRobin db google random (Some uid) =
        (\<lparr>status = 200, body = MessageBody ''User has no selected genres''\<rparr>, [])"
    by (simp add: fetchRoute_def fetchRouteRoundRobin_def)
  have b: "uid \<noteq> 0 \<and> dbUserGenres db uid \<noteq> [] \<and>
    aggregateLoop google (excludeGoogleIds db uid) (dbUserGenres db uid) [] [] = (Inr [], t) \<longrightarrow>
      fetchRoute db google (Some uid) = (\<lparr>status = 200, body = BooksBody []\<rparr>, t) \<and>
      (\<forall>e\<in>set t. \<exists>q. e = GoogleFetch q)"
  proof (intro impI conjI)
    assume h: "uid \<noteq> 0 \<and> dbUserGenres db uid \<noteq> [] \<and>
      aggregateLoop google (excludeGoogleIds db uid) (dbUserGenres db uid) [] [] = (Inr [], t)"
    then show "fetchRoute db google (Some uid) = (\<lparr>status = 200, body = BooksBody []\<rparr>, t)"
      by (simp add: fetchRoute_def Let_def)
    from h show "\<forall>e\<in>set t. \<exists>q. e = GoogleFetch q"
      using aggregateLoop_trace[of google "excludeGoogleIds db uid" "dbUserGenres db uid" "[]" "[]" "Inr []" t]
      by simp
  qed
  have c: "uid \<noteq> 0 \<and> dbUserGenres db uid \<noteq> [] \<and> 0 \<le> random \<and> random < 1 \<and>
    poolLoop google (dbSeen db uid) (dbUserGenres db uid) [] [] = (Inr pools, t) \<and>
    (\<forall>e\<in>set pools. snd e = []) \<longrightarrow>
      fetchRouteRoundRobin db google random (Some uid) = (\<lparr>status = 200, body = BooksBody []\<rparr>, t) \<and>
      (\<forall>e\<in>set t. \<exists>q. e = GoogleFetch q)"
  proof (intro impI conjI)
    assume h: "uid \<noteq> 0 \<and> dbUserGenres db uid \<noteq> [] \<and> 0 \<le> random \<and> random < 1 \<and>
      poolLoop google (dbSeen db uid) (dbUserGenres db uid) [] [] = (Inr pools, t) \<and>
      (\<forall>e\<in>set pools. snd e = [])"
    then show "fetchRouteRoundRobin db google random (Some uid) =
        (\<lparr>status = 200, body = BooksBody []\<rparr>, t)"
      using roundRobin_route_empty[of uid db random google pools t] by blast
    from h show "\<forall>e\<in>set t. \<exists>q. e = GoogleFetch q"
      using poolLoop_trace[of google "dbSeen db uid" "dbUserGenres db uid" "[]" "[]" "Inr pools" t]
      by simp
  qed
  from a b c show ?thesis by (intro conjI)
qed

text \<open>User 2 has no preferred genre; user 1 has one, and the only item fetched for it has
  no cover.\<close>

theorem empty_cases_respond_200_witness:
  "fetchRoute exampleDb rateLimitedGoogle (Some 2) =
     (\<lparr>status = 200, body = MessageBody ''User has no selected genres''\<rparr>, []) \<and>
   fetchRouteRoundRobin exampleDb rateLimitedGoogle 0 (Some 2) =
     (\<lparr>status = 200, body = MessageBody ''User has no selected genres''\<rparr>, []) \<and>
   fetchRoute exampleDb rateLimitedGoogle (Some 1) =
     (\<lparr>status = 200, body = BooksBody []\<rparr>, [GoogleFetch ''subject:Science Fiction'']) \<and>
   fetchRouteRoundRobin exampleDb rateLimitedGoogle 0 (Some 1) =
     (\<lparr>status = 200, body = BooksBody []\<rparr>, [GoogleFetch ''subject:Science Fiction''])"
proof -
  have f: "fetchBooksFromGoogle (GoogleItems [(exampleItem, CoverRejected 429)]) = Inr []"
    by (simp add: fetchBooksFromGoogle_def toCandidate_def exampleItem_def cover_rejected)
  have h1: "(2::int) \<noteq> 0 \<and> dbUserGenres exampleDb 2 = []"
    by (simp add: exampleDb_def)
  have h2: "(1::int) \<noteq> 0 \<and> dbUserGenres exampleDb 1 \<noteq> [] \<and>
    aggregateLoop rateLimitedGoogle (excludeGoogleIds exampleDb 1) (dbUserGenres exampleDb 1) [] [] =
      (Inr [], [GoogleFetch ''subject:Science Fiction''])"
    by (simp add: exampleDb_def rateLimitedGoogle_def Let_def f)
  have h3: "(1::int) \<noteq> 0 \<and> dbUserGenres exampleDb 1 \<noteq> [] \<and> (0::rat) \<le> 0 \<and> (0::rat) < 1 \<and>
    poolLoop rateLimitedGoogle (dbSeen exampleDb 1) (dbUserGenres exampleDb 1) [] [] =
      (Inr [(2, [])], [GoogleFetch ''subject:Science Fiction'']) \<and>
    (\<forall>e\<in>set [(2::int, [] :: CandidateBook list)]. snd e = [])"
    by (simp add: exampleDb_def rateLimitedGoogle_def Let_def f poolFor_def)
  from empty_cases_respond_200[of 2 exampleDb rateLimitedGoogle 0 "[]" "[]"]
       empty_cases_respond_200[of 1 exampleDb rateLimitedGoogle 0
         "[GoogleFetch ''subject:Science Fiction'']" "[(2, [])]"]
       h1 h2 h3
  show ?thesis by blast
qed

end
